theory Spec2Isabelle
  imports Main "HOL-Library.AList"
begin

section \<open>File items: attribute validators (blockwart/items/files.py)\<close>

text \<open>
  Attribute values are Python objects. The validators only tell strings from everything
  else, so the model keeps strings, \<open>None\<close> and integers apart. The module is Python 2,
  which has two string types: \<open>str\<close>, a byte string (\<open>StrVal\<close>, one \<open>char\<close> per byte), and
  \<open>unicode\<close>, a text string (\<open>UnicodeVal\<close>, the list of its code points).
\<close>

datatype attr_value = StrVal string | UnicodeVal "nat list" | NoneVal | IntVal int

text \<open>
  The four \<open>BundleError\<close> messages of the module, by their template. The error keeps the
  item id and the offending value the template is formatted with. \<open>AttributeError\<close> is
  what \<open>value.isdigit()\<close> raises on a value that is not a string, \<open>ValueError\<close> what
  \<open>int(digit)\<close> raises on a character it cannot read as a number.
\<close>

datatype bundle_msg = InvalidContentType | ModeNotDigits | InvalidMode | ModeWrongLength

datatype files_error = BundleError bundle_msg string attr_value | AttributeError | ValueError

text \<open>
  A \<open>unicode\<close> literal of ASCII characters: \<open>unicode_of ''644''\<close> is \<open>u'644'\<close>.
\<close>

definition unicode_of :: "string \<Rightarrow> nat list" where
  "unicode_of s = map of_char s"

text \<open>
  \<open>CONTENT_PROCESSORS = {'binary': None}\<close>: only the keys matter to the validator. A text
  string is in the dict when it equals a key, as \<open>u'binary' == 'binary'\<close>.
\<close>

definition CONTENT_PROCESSORS :: "string list" where
  "CONTENT_PROCESSORS = [''binary'']"

definition validator_content_type :: "string \<Rightarrow> attr_value \<Rightarrow> files_error + unit" where
  "validator_content_type item_id v =
     (case v of
        StrVal s \<Rightarrow>
          if s \<notin> set CONTENT_PROCESSORS then Inl (BundleError InvalidContentType item_id v)
          else Inr ()
      | UnicodeVal u \<Rightarrow>
          if u \<notin> unicode_of ` set CONTENT_PROCESSORS
          then Inl (BundleError InvalidContentType item_id v)
          else Inr ()
      | _ \<Rightarrow> Inl (BundleError InvalidContentType item_id v))"

text \<open>
  \<open>str.isdigit\<close> on a byte string: not empty, and every byte one of \<open>0\<close> .. \<open>9\<close>.
  \<open>int(digit)\<close> on a one-byte string: the digit's value, \<open>ValueError\<close> on any other byte.
\<close>

definition is_digit_char :: "char \<Rightarrow> bool" where
  "is_digit_char c = (48 \<le> (of_char c :: nat) \<and> (of_char c :: nat) \<le> 57)"

definition isdigit :: "string \<Rightarrow> bool" where
  "isdigit s = (s \<noteq> [] \<and> list_all is_digit_char s)"

definition int_of_digit :: "char \<Rightarrow> files_error + int" where
  "int_of_digit c = (if is_digit_char c then Inr (int (of_char c) - 48) else Inl ValueError)"

text \<open>
  On a text string both read the interpreter's Unicode character database, which is no
  part of the repository and is taken as a parameter: \<open>numeric_digit\<close> says which
  characters \<open>unicode.isdigit\<close> counts as digits (the decimal digits of every script, and
  digit characters such as superscripts), \<open>decimal_value\<close> gives the value \<open>int\<close> reads from
  a decimal digit; on any other character \<open>int\<close> raises \<open>ValueError\<close>.
\<close>

record unicode_data =
  numeric_digit :: "nat \<Rightarrow> bool"
  decimal_value :: "nat \<Rightarrow> nat option"

definition unicode_isdigit :: "unicode_data \<Rightarrow> nat list \<Rightarrow> bool" where
  "unicode_isdigit t u = (u \<noteq> [] \<and> list_all (numeric_digit t) u)"

definition int_of_unicode_digit :: "unicode_data \<Rightarrow> nat \<Rightarrow> files_error + int" where
  "int_of_unicode_digit t c =
     (case decimal_value t c of None \<Rightarrow> Inl ValueError | Some d \<Rightarrow> Inr (int d))"


text \<open>
  Rows of the database for the examples: the ASCII digits, the Arabic-Indic digits
  U+0660 .. U+0669 (decimal digits zero to nine), and U+00B2 SUPERSCRIPT TWO (a digit
  that is not a decimal digit).
\<close>

definition example_unicode_data :: unicode_data where
  "example_unicode_data =
     \<lparr>numeric_digit =
        (\<lambda>c. 48 \<le> c \<and> c \<le> 57 \<or> 1632 \<le> c \<and> c \<le> 1641 \<or> c = 178),
      decimal_value =
        (\<lambda>c. if 48 \<le> c \<and> c \<le> 57 then Some (c - 48)
             else if 1632 \<le> c \<and> c \<le> 1641 then Some (c - 1632)
             else None)\<rparr>"

text \<open>
  The \<open>for digit in value\<close> loop of \<open>validator_mode\<close>, given the \<open>int\<close> of the string's type:
  the first digit that \<open>int\<close> cannot read or that is out of range raises.
\<close>

fun mode_digits :: "('c \<Rightarrow> files_error + int) \<Rightarrow> string \<Rightarrow> attr_value \<Rightarrow> 'c list \<Rightarrow> files_error + unit" where
  "mode_digits to_int item_id v [] = Inr ()"
| "mode_digits to_int item_id v (digit # rest) =
     (case to_int digit of
        Inl e \<Rightarrow> Inl e
      | Inr d \<Rightarrow>
          if d > 7 \<or> d < 0 then Inl (BundleError InvalidMode item_id v)
          else mode_digits to_int item_id v rest)"

text \<open>
  The body of \<open>validator_mode\<close> on a string, given the \<open>isdigit\<close> and the \<open>int\<close> of its
  type.
\<close>

definition validator_mode_on ::
    "('c list \<Rightarrow> bool) \<Rightarrow> ('c \<Rightarrow> files_error + int) \<Rightarrow> string \<Rightarrow> attr_value \<Rightarrow> 'c list
     \<Rightarrow> files_error + unit" where
  "validator_mode_on is_digits to_int item_id v s =
     (if \<not> is_digits s then Inl (BundleError ModeNotDigits item_id v)
      else (case mode_digits to_int item_id v s of
              Inl e \<Rightarrow> Inl e
            | Inr _ \<Rightarrow>
                if \<not> length s = 3 \<and> \<not> length s = 4
                then Inl (BundleError ModeWrongLength item_id v)
                else Inr ()))"

definition validator_mode :: "unicode_data \<Rightarrow> string \<Rightarrow> attr_value \<Rightarrow> files_error + unit" where
  "validator_mode t item_id v =
     (case v of
        StrVal s \<Rightarrow> validator_mode_on isdigit int_of_digit item_id v s
      | UnicodeVal u \<Rightarrow>
          validator_mode_on (unicode_isdigit t) (int_of_unicode_digit t) item_id v u
      | _ \<Rightarrow> Inl AttributeError)"

text \<open>
  \<open>ATTRIBUTE_VALIDATORS\<close> is a \<open>defaultdict\<close> whose default factory returns a validator
  that accepts everything; two keys are overridden. Looking up a key is total.
\<close>

definition ATTRIBUTE_VALIDATORS ::
    "unicode_data \<Rightarrow> string \<Rightarrow> string \<Rightarrow> attr_value \<Rightarrow> files_error + unit" where
  "ATTRIBUTE_VALIDATORS t key =
     (if key = ''content_type'' then validator_content_type
      else if key = ''mode'' then validator_mode t
      else (\<lambda>item_id v. Inr ()))"

text \<open>
  \<open>File.validate_attributes\<close>: the attribute dict is walked in its iteration order, and
  the first validator that raises ends the walk.
\<close>

fun validate_attributes ::
    "unicode_data \<Rightarrow> string \<Rightarrow> (string \<times> attr_value) list \<Rightarrow> files_error + unit" where
  "validate_attributes t item_id [] = Inr ()"
| "validate_attributes t item_id ((key, v) # rest) =
     (case ATTRIBUTE_VALIDATORS t key item_id v of
        Inl e \<Rightarrow> Inl e
      | Inr _ \<Rightarrow> validate_attributes t item_id rest)"





definition checked_key :: "string \<times> attr_value \<Rightarrow> bool" where
  "checked_key kv = (fst kv = ''content_type'' \<or> fst kv = ''mode'')"

section \<open>Apply runs of a node (blockwart/node.py)\<close>

subsection \<open>Status records and the apply result\<close>

text \<open>
  An item's \<open>apply\<close> returns a pair of status records (before, after). The aggregator
  reads three attributes of a status, each for its truth value.
\<close>

record status =
  correct :: bool
  fixable :: bool
  aborted :: bool

type_synonym item_result = "status \<times> status"

text \<open>The five counters of an \<open>ApplyResult\<close> instance.\<close>

record apply_result =
  ar_correct :: nat
  ar_fixed :: nat
  ar_aborted :: nat
  ar_unfixable :: nat
  ar_failed :: nat

subsection \<open>Items and the dependency graph\<close>

text \<open>
  What the scheduler reads of a concrete item: its id, the two dependency lists, the
  temporary attribute \<open>_deps\<close> (field \<open>deps\<close>, written by \<open>inject_dummy_items\<close>) and what
  \<open>apply(interactive=...)\<close> returns. \<open>apply\<close> is taken to return; an \<open>apply\<close> that raises
  is outside the model.
\<close>

record item =
  item_id :: string
  DEPENDS_STATIC :: "string list"
  depends :: "string list"
  deps :: "string list"
  apply_fn :: "bool \<Rightarrow> item_result"

record dummy_item =
  item_type :: string
  dummy_deps :: "string list"

datatype graph_item = Item item | DummyItem dummy_item

fun id_of :: "graph_item \<Rightarrow> string" where
  "id_of (Item i) = item_id i"
| "id_of (DummyItem d) = item_type d @ '':''"

fun deps_of :: "graph_item \<Rightarrow> string list" where
  "deps_of (Item i) = deps i"
| "deps_of (DummyItem d) = dummy_deps d"

fun set_deps :: "string list \<Rightarrow> graph_item \<Rightarrow> graph_item" where
  "set_deps ds (Item i) = Item (i\<lparr>deps := ds\<rparr>)"
| "set_deps ds (DummyItem d) = DummyItem (d\<lparr>dummy_deps := ds\<rparr>)"

text \<open>\<open>item.apply(interactive=...)\<close>; \<open>DummyItem.apply\<close> returns \<open>None\<close>.\<close>

fun apply_of :: "graph_item \<Rightarrow> bool \<Rightarrow> item_result option" where
  "apply_of (Item i) interactive = Some (apply_fn i interactive)"
| "apply_of (DummyItem d) interactive = None"

text \<open>
  The errors of the module: the two it raises itself, and the \<open>TypeError\<close> of adding a
  generator to a list (\<open>can only concatenate list (not "generator") to list\<close>).
\<close>

datatype node_error =
    RuntimeError status status
  | ItemDependencyError "graph_item list"
  | ConcatTypeError

text \<open>\<open>s.split(":")[0]\<close>: the text before the first colon, all of it when there is none.\<close>

definition item_type_of :: "string \<Rightarrow> string" where
  "item_type_of s = takeWhile (\<lambda>c. c \<noteq> CHR '':'') s"

text \<open>
  The dict \<open>dummy_items\<close> of \<open>inject_dummy_items\<close>, as the list of its entries in insertion
  order (the order \<open>dict.values()\<close> gives on Python 3.7 and later; older interpreters
  give the entries in an order of their own).
\<close>

type_synonym dummies = "(string \<times> dummy_item) list"

text \<open>\<open>if item_type not in dummy_items: dummy_items[item_type] = DummyItem(item_type)\<close>\<close>

definition add_dummy :: "string \<Rightarrow> dummies \<Rightarrow> dummies" where
  "add_dummy t ds =
     (if t \<in> fst ` set ds then ds else ds @ [(t, \<lparr>item_type = t, dummy_deps = []\<rparr>)])"

text \<open>\<open>dummy_items[item_type]._deps.append(item.id)\<close>\<close>

definition append_dep :: "string \<Rightarrow> string \<Rightarrow> dummies \<Rightarrow> dummies" where
  "append_dep t i ds =
     map (\<lambda>(k, d). if k = t then (k, d\<lparr>dummy_deps := dummy_deps d @ [i]\<rparr>) else (k, d)) ds"

text \<open>The inner loop \<open>for dep in item._deps\<close>.\<close>

fun dep_types :: "string list \<Rightarrow> dummies \<Rightarrow> dummies" where
  "dep_types [] ds = ds"
| "dep_types (dep # rest) ds = dep_types rest (add_dummy (item_type_of dep) ds)"

text \<open>The outer loop \<open>for item in items\<close>: the dict and the items with \<open>_deps\<close> set.\<close>

fun inject_loop :: "item list \<Rightarrow> dummies \<Rightarrow> dummies \<times> item list" where
  "inject_loop [] ds = (ds, [])"
| "inject_loop (i # rest) ds =
     (let i' = i\<lparr>deps := DEPENDS_STATIC i @ depends i\<rparr>;
          t = item_type_of (item_id i');
          ds1 = append_dep t (item_id i') (add_dummy t ds);
          ds2 = dep_types (deps i') ds1;
          (ds3, rest') = inject_loop rest ds2
      in (ds3, i' # rest'))"

definition inject_dummy_items :: "item list \<Rightarrow> graph_item list" where
  "inject_dummy_items items =
     (let (ds, items') = inject_loop items []
      in map (\<lambda>(k, d). DummyItem d) ds @ map Item items')"

text \<open>
  \<open>split_items_without_deps\<close>: the items with an empty \<open>_deps\<close> are collected, then each is
  removed from the list by \<open>list.remove\<close> (the first equal element).
\<close>

definition split_items_without_deps :: "graph_item list \<Rightarrow> graph_item list \<times> graph_item list" where
  "split_items_without_deps items =
     (let removed_items = filter (\<lambda>i. deps_of i = []) items
      in (foldl (\<lambda>xs x. remove1 x xs) items removed_items, removed_items))"

text \<open>
  \<open>remove_dep_from_items\<close>: \<open>item._deps.remove(dep)\<close> takes out the first occurrence of
  \<open>dep\<close>; the \<open>ValueError\<close> of a list without it is swallowed.
\<close>

definition remove_dep_from_items :: "graph_item list \<Rightarrow> string \<Rightarrow> graph_item list" where
  "remove_dep_from_items items dep = map (\<lambda>i. set_deps (remove1 dep (deps_of i)) i) items"

subsection \<open>The worker pool\<close>

text \<open>
  Modelled from the spec: the worker pool (\<open>blockwart.concurrency.WorkerPool\<close>) is not
  among the sources. A pool has a fixed number of workers; a worker is idle, busy with a
  task, or reapable (its task has finished and its result waits to be consumed). A task
  is tagged with the id it was started under and carries what its function returns.
\<close>

type_synonym task = "string \<times> item_result option"

record pool =
  pool_size :: nat
  busy :: "task list"
  reapable :: "task list"

definition WorkerPool :: "int \<Rightarrow> pool" where
  "WorkerPool n = \<lparr>pool_size = nat n, busy = [], reapable = []\<rparr>"

definition busy_count :: "pool \<Rightarrow> nat" where
  "busy_count p = length (busy p)"

definition reapable_count :: "pool \<Rightarrow> nat" where
  "reapable_count p = length (reapable p)"

text \<open>\<open>get_idle_worker(block=False)\<close> returns a worker exactly when one is idle.\<close>

definition has_idle_worker :: "pool \<Rightarrow> bool" where
  "has_idle_worker p = (busy_count p + reapable_count p < pool_size p)"

definition start_task :: "task \<Rightarrow> pool \<Rightarrow> pool" where
  "start_task t p = p\<lparr>busy := busy p @ [t]\<rparr>"

text \<open>
  \<open>get_reapable_worker\<close> returns one of the reapable workers, which one is not specified:
  the choice \<open>k\<close> picks it. \<open>reap\<close> hands out its result and makes the worker idle.
\<close>

definition get_reapable_worker :: "nat \<Rightarrow> pool \<Rightarrow> task" where
  "get_reapable_worker k p = reapable p ! (k mod length (reapable p))"

definition reap :: "nat \<Rightarrow> pool \<Rightarrow> pool" where
  "reap k p =
     p\<lparr>reapable := take (k mod length (reapable p)) (reapable p)
                    @ drop (Suc (k mod length (reapable p))) (reapable p)\<rparr>"

text \<open>A running task finishes: its worker turns from busy to reapable.\<close>

definition finish_task :: "nat \<Rightarrow> pool \<Rightarrow> pool" where
  "finish_task k p =
     (if busy p = [] then p
      else p\<lparr>busy := take (k mod length (busy p)) (busy p)
                      @ drop (Suc (k mod length (busy p))) (busy p),
             reapable := reapable p @ [busy p ! (k mod length (busy p))]\<rparr>)"

subsection \<open>The scheduler\<close>

text \<open>
  \<open>apply_items\<close> is a generator that drives the pool while tasks run in parallel with it.
  The model is a state machine. A state holds the two item lists, the pool, the results
  yielded so far, the pool calls made so far (\<open>trace\<close>) and the place the generator has
  reached:
  \<^item> \<open>AtOuter\<close>: the test of the outer \<open>while\<close>, and the check after the loop;
  \<^item> \<open>AtDispatch\<close>: the test of \<open>while items_without_deps\<close> and one turn of its body;
  \<^item> \<open>AtReap\<close>: the test of \<open>while workers.reapable_count > 0\<close> and one turn of its body;
  \<^item> \<open>AtIdle\<close>: the \<open>if\<close> in front of \<open>workers.wait()\<close>;
  \<^item> \<open>AtWait\<close>: inside \<open>workers.wait()\<close>, which returns once a worker is reapable;
  \<^item> \<open>Finished\<close>: the generator has returned, or raised the error in \<open>raised\<close>.
\<close>

datatype place = AtOuter | AtDispatch | AtReap | AtIdle | AtWait | Finished

datatype pool_call = Start string | Reap string

record sched =
  place :: place
  items_with_deps :: "graph_item list"
  items_without_deps :: "graph_item list"
  workers :: pool
  interactive :: bool
  yielded :: "item_result list"
  trace :: "pool_call list"
  raised :: "node_error option"

text \<open>The statements of \<open>apply_items\<close> in front of the outer loop.\<close>

definition apply_items_init :: "item list \<Rightarrow> int \<Rightarrow> bool \<Rightarrow> sched" where
  "apply_items_init items n interact =
     (let (with_deps, without_deps) = split_items_without_deps (inject_dummy_items items)
      in \<lparr>place = AtOuter, items_with_deps = with_deps, items_without_deps = without_deps,
          workers = WorkerPool n, interactive = interact, yielded = [], trace = [],
          raised = None\<rparr>)"

text \<open>
  One step of the generator. \<open>items_without_deps.pop()\<close> takes the last item of the list.
  In the reap loop both lists are assigned from the split of the items that still had
  dependencies. The choice \<open>k\<close> is only read by \<open>get_reapable_worker\<close>.
\<close>

definition sched_step :: "nat \<Rightarrow> sched \<Rightarrow> sched" where
  "sched_step k s =
     (case place s of
        AtOuter \<Rightarrow>
          if items_without_deps s \<noteq> [] \<or> busy_count (workers s) > 0
             \<or> reapable_count (workers s) > 0
          then s\<lparr>place := AtDispatch\<rparr>
          else if items_with_deps s \<noteq> []
          then s\<lparr>place := Finished, raised := Some (ItemDependencyError (items_with_deps s))\<rparr>
          else s\<lparr>place := Finished\<rparr>
      | AtDispatch \<Rightarrow>
          if items_without_deps s \<noteq> []
          then if \<not> has_idle_worker (workers s) then s\<lparr>place := AtReap\<rparr>
               else let i = last (items_without_deps s)
                    in s\<lparr>items_without_deps := butlast (items_without_deps s),
                         workers := start_task (id_of i, apply_of i (interactive s)) (workers s),
                         trace := trace s @ [Start (id_of i)]\<rparr>
          else s\<lparr>place := AtReap\<rparr>
      | AtReap \<Rightarrow>
          if reapable_count (workers s) > 0
          then let (dep, result) = get_reapable_worker k (workers s);
                   (with_deps, without_deps) =
                     split_items_without_deps (remove_dep_from_items (items_with_deps s) dep)
               in s\<lparr>items_with_deps := with_deps, items_without_deps := without_deps,
                    workers := reap k (workers s),
                    yielded := (case result of None \<Rightarrow> yielded s | Some r \<Rightarrow> yielded s @ [r]),
                    trace := trace s @ [Reap dep]\<rparr>
          else s\<lparr>place := AtIdle\<rparr>
      | AtIdle \<Rightarrow>
          if busy_count (workers s) > 0 \<and> items_without_deps s = []
             \<and> \<not> reapable_count (workers s) > 0
          then s\<lparr>place := AtWait\<rparr>
          else s\<lparr>place := AtOuter\<rparr>
      | AtWait \<Rightarrow>
          if reapable_count (workers s) > 0 then s\<lparr>place := AtOuter\<rparr> else s
      | Finished \<Rightarrow> s)"

text \<open>
  What happens during a run: the generator takes a step (\<open>Run k\<close>, with the choice its
  step may need), or the task of a busy worker finishes (\<open>Finish k\<close>, the \<open>k\<close>-th busy worker,
  counted cyclically). Tasks finish at any moment between two steps of the generator.
\<close>

datatype event = Run nat | Finish nat

fun step :: "sched \<Rightarrow> event \<Rightarrow> sched" where
  "step s (Run k) = sched_step k s"
| "step s (Finish k) = s\<lparr>workers := finish_task k (workers s)\<rparr>"

definition apply_items :: "event list \<Rightarrow> item list \<Rightarrow> int \<Rightarrow> bool \<Rightarrow> sched" where
  "apply_items events items n interact = foldl step (apply_items_init items n interact) events"

subsection \<open>The aggregator and \<open>Node.apply\<close>\<close>

text \<open>One turn of the loop in \<open>ApplyResult.__init__\<close>.\<close>

definition ApplyResult_step :: "apply_result \<Rightarrow> item_result \<Rightarrow> node_error + apply_result" where
  "ApplyResult_step r ba =
     (let before = fst ba; after = snd ba in
      if correct before \<and> correct after then Inr (r\<lparr>ar_correct := ar_correct r + 1\<rparr>)
      else if aborted after then Inr (r\<lparr>ar_aborted := ar_aborted r + 1\<rparr>)
      else if \<not> fixable before \<or> \<not> fixable after
        then Inr (r\<lparr>ar_unfixable := ar_unfixable r + 1\<rparr>)
      else if \<not> correct before \<and> correct after then Inr (r\<lparr>ar_fixed := ar_fixed r + 1\<rparr>)
      else if \<not> correct before \<and> \<not> correct after
        then Inr (r\<lparr>ar_failed := ar_failed r + 1\<rparr>)
      else Inl (RuntimeError before after))"

fun ApplyResult_loop :: "apply_result \<Rightarrow> item_result list \<Rightarrow> node_error + apply_result" where
  "ApplyResult_loop r [] = Inr r"
| "ApplyResult_loop r (ba # rest) =
     (case ApplyResult_step r ba of
        Inl e \<Rightarrow> Inl e
      | Inr r' \<Rightarrow> ApplyResult_loop r' rest)"

definition ApplyResult :: "item_result list \<Rightarrow> node_error + apply_result" where
  "ApplyResult item_results =
     ApplyResult_loop
       \<lparr>ar_correct = 0, ar_fixed = 0, ar_aborted = 0, ar_unfixable = 0, ar_failed = 0\<rparr>
       item_results"








subsection \<open>The aggregator's classes as the specification lists them\<close>

text \<open>
  The five clauses of the specification, in the order it lists them, and the first one
  that matches a pair of statuses. \<open>counter\<close> reads the counter of a class.
\<close>

datatype outcome = Correct | Aborted | Unfixable | Fixed | Failed

fun clause :: "outcome \<Rightarrow> status \<Rightarrow> status \<Rightarrow> bool" where
  "clause Correct before after = (correct before \<and> correct after)"
| "clause Aborted before after = aborted after"
| "clause Unfixable before after = (\<not> fixable before \<or> \<not> fixable after)"
| "clause Fixed before after = (\<not> correct before \<and> correct after)"
| "clause Failed before after = (\<not> correct before \<and> \<not> correct after)"

definition first_clause :: "item_result \<Rightarrow> outcome option" where
  "first_clause ba =
     find (\<lambda>k. clause k (fst ba) (snd ba)) [Correct, Aborted, Unfixable, Fixed, Failed]"

fun counter :: "outcome \<Rightarrow> apply_result \<Rightarrow> nat" where
  "counter Correct r = ar_correct r"
| "counter Aborted r = ar_aborted r"
| "counter Unfixable r = ar_unfixable r"
| "counter Fixed r = ar_fixed r"
| "counter Failed r = ar_failed r"

subsection \<open>Invariants and measures of the scheduler\<close>

text \<open>
  What holds of every state of a run: the pending items all have dependencies left, no
  error is raised before the end, and at the end the error lists the pending items.
\<close>

definition exit_inv :: "sched \<Rightarrow> bool" where
  "exit_inv s \<longleftrightarrow>
     (\<forall>i \<in> set (items_with_deps s). deps_of i \<noteq> [])
     \<and> (if place s = Finished
        then items_without_deps s = [] \<and> busy (workers s) = [] \<and> reapable (workers s) = []
             \<and> raised s = (if items_with_deps s = [] then None
                            else Some (ItemDependencyError (items_with_deps s)))
        else raised s = None)"

text \<open>The generator is inside \<open>wait()\<close> only while some task is running or reapable.\<close>

definition wait_inv :: "sched \<Rightarrow> bool" where
  "wait_inv s \<longleftrightarrow>
     (place s = AtWait \<longrightarrow> busy (workers s) \<noteq> [] \<or> reapable (workers s) \<noteq> [])"

text \<open>
  A fair continuation of a run: a running task finishes if there is one, otherwise the
  generator takes a step. Three measures say how far such a run is from its end: the
  items not yet reaped, the items not yet started, and the steps to the next start,
  reap or return.
\<close>

definition next_event :: "sched \<Rightarrow> event" where
  "next_event s = (if busy (workers s) \<noteq> [] then Finish 0 else Run 0)"

definition unreaped :: "sched \<Rightarrow> nat" where
  "unreaped s = length (items_with_deps s) + length (items_without_deps s)
                + length (busy (workers s)) + length (reapable (workers s))"

definition unfinished :: "sched \<Rightarrow> nat" where
  "unfinished s = 2 * length (items_without_deps s) + length (busy (workers s))"

definition steps_to_progress :: "sched \<Rightarrow> nat" where
  "steps_to_progress s =
     (if reapable (workers s) \<noteq> []
      then (case place s of AtReap \<Rightarrow> 0 | AtDispatch \<Rightarrow> 1 | AtOuter \<Rightarrow> 2
                          | AtIdle \<Rightarrow> 3 | AtWait \<Rightarrow> 3 | Finished \<Rightarrow> 0)
      else if items_without_deps s \<noteq> []
      then (case place s of AtDispatch \<Rightarrow> 0 | AtOuter \<Rightarrow> 1 | AtIdle \<Rightarrow> 2
                          | AtReap \<Rightarrow> 3 | AtWait \<Rightarrow> 4 | Finished \<Rightarrow> 0)
      else (case place s of Finished \<Rightarrow> 0 | AtOuter \<Rightarrow> 1 | AtIdle \<Rightarrow> 2
                          | AtReap \<Rightarrow> 3 | AtDispatch \<Rightarrow> 4 | AtWait \<Rightarrow> 5))"

text \<open>
  What a run keeps when a pending item waits for an id \<open>d\<close> that no item of the graph has
  (\<open>ids\<close> are the ids of the graph's items): every task and every item left carries an
  id of the graph, so \<open>d\<close> is never reaped and the item named \<open>waiting\<close> stays pending.
\<close>

definition unknown_inv :: "string set \<Rightarrow> string \<Rightarrow> string \<Rightarrow> sched \<Rightarrow> bool" where
  "unknown_inv ids waiting d s \<longleftrightarrow>
     (\<forall>t \<in> set (busy (workers s)) \<union> set (reapable (workers s)). fst t \<in> ids)
     \<and> (\<forall>g \<in> set (items_with_deps s) \<union> set (items_without_deps s). id_of g \<in> ids)
     \<and> (\<exists>g \<in> set (items_with_deps s). id_of g = waiting \<and> d \<in> set (deps_of g))"

subsection \<open>Example data\<close>

definition mk_status :: "bool \<Rightarrow> bool \<Rightarrow> bool \<Rightarrow> status" where
  "mk_status c f a = \<lparr>correct = c, fixable = f, aborted = a\<rparr>"

text \<open>An item whose \<open>apply\<close> finds it wrong and fixes it.\<close>

definition fixed_result :: item_result where
  "fixed_result = (mk_status False True False, mk_status True True False)"

definition mk_item :: "string \<Rightarrow> string list \<Rightarrow> string list \<Rightarrow> item" where
  "mk_item i static user =
     \<lparr>item_id = i, DEPENDS_STATIC = static, depends = user, deps = [],
      apply_fn = (\<lambda>interactive. fixed_result)\<rparr>"

text \<open>
  A run with one worker in which the generator goes once round its outer loop while the
  first task runs, the task finishes, and the generator goes on.
\<close>

definition one_task_run :: "event list" where
  "one_task_run =
     [Run 0, Run 0, Run 0, Run 0, Run 0, Finish 0,
      Run 0, Run 0, Run 0, Run 0, Run 0, Run 0, Run 0]"

text \<open>
  A run with two workers in which two tasks are started, both finish, and both are
  reaped in one pass of the reap loop.
\<close>

definition two_task_run :: "event list" where
  "two_task_run =
     [Run 0, Run 0, Run 0, Run 0, Finish 0, Finish 0,
      Run 0, Run 0, Run 0, Run 0, Run 0]"

text \<open>
  The states a run on the two items \<open>file:a\<close> and \<open>file:b\<close> (no dependencies, one worker)
  passes through, whenever the task finishes: nothing started yet (\<open>phase0\<close>); \<open>file:b\<close>
  started and \<open>file:a\<close> still ready (\<open>phase1\<close>, the task busy or reapable); \<open>file:b\<close> reaped
  and \<open>file:a\<close> gone from both lists (\<open>phase2\<close>).
\<close>

definition phase0 :: "place \<Rightarrow> sched" where
  "phase0 p =
     \<lparr>place = p,
      items_with_deps =
        [DummyItem \<lparr>item_type = ''file'', dummy_deps = [''file:a'', ''file:b'']\<rparr>],
      items_without_deps = [Item (mk_item ''file:a'' [] []), Item (mk_item ''file:b'' [] [])],
      workers = \<lparr>pool_size = 1, busy = [], reapable = []\<rparr>,
      interactive = False, yielded = [], trace = [], raised = None\<rparr>"

definition phase1 :: "place \<Rightarrow> task list \<Rightarrow> task list \<Rightarrow> sched" where
  "phase1 p b r =
     \<lparr>place = p,
      items_with_deps =
        [DummyItem \<lparr>item_type = ''file'', dummy_deps = [''file:a'', ''file:b'']\<rparr>],
      items_without_deps = [Item (mk_item ''file:a'' [] [])],
      workers = \<lparr>pool_size = 1, busy = b, reapable = r\<rparr>,
      interactive = False, yielded = [], trace = [Start ''file:b''], raised = None\<rparr>"

definition phase2 :: "place \<Rightarrow> node_error option \<Rightarrow> sched" where
  "phase2 p e =
     \<lparr>place = p,
      items_with_deps = [DummyItem \<lparr>item_type = ''file'', dummy_deps = [''file:a'']\<rparr>],
      items_without_deps = [],
      workers = \<lparr>pool_size = 1, busy = [], reapable = []\<rparr>,
      interactive = False, yielded = [fixed_result],
      trace = [Start ''file:b'', Reap ''file:b''], raised = e\<rparr>"

definition two_items_inv :: "sched \<Rightarrow> bool" where
  "two_items_inv s \<longleftrightarrow>
     s = phase0 AtOuter \<or> s = phase0 AtDispatch
     \<or> (\<exists>p. (p = AtOuter \<or> p = AtDispatch \<or> p = AtReap \<or> p = AtIdle)
             \<and> (s = phase1 p [(''file:b'', Some fixed_result)] []
                \<or> s = phase1 p [] [(''file:b'', Some fixed_result)]))
     \<or> s = phase2 AtReap None \<or> s = phase2 AtIdle None \<or> s = phase2 AtOuter None
     \<or> s = phase2 Finished
             (Some (ItemDependencyError
                [DummyItem \<lparr>item_type = ''file'', dummy_deps = [''file:a'']\<rparr>]))"

section \<open>The Metastack (bundlewrap/utils/metastack.py)\<close>

subsection \<open>Metadata values\<close>

text \<open>
  A metadata value is \<open>None\<close>, a boolean, an integer, a string, a list of values or a dict
  from strings to values. A dict is the list of its items in insertion order; a Python
  dict holds a key once, which \<open>wf_mval\<close> says of every dict inside a value. Floating point
  numbers are left out.
\<close>

datatype mval =
    MNone
  | MBool bool
  | MInt int
  | MStr string
  | MList "mval list"
  | MDict "(string \<times> mval) list"

fun wf_mval :: "mval \<Rightarrow> bool" where
  "wf_mval (MList xs) = (\<forall>x \<in> set xs. wf_mval x)"
| "wf_mval (MDict kvs) = (distinct (map fst kvs) \<and> (\<forall>kv \<in> set kvs. wf_mval (snd kv)))"
| "wf_mval v = True"

text \<open>
  Python's \<open>==\<close> on metadata values. Booleans are integers (\<open>True == 1\<close>); lists are equal
  when they have the same length and equal elements in order; dicts are equal when they
  have the same number of items and every key of the left one has an equal value in the
  right one.
\<close>

fun py_eq :: "mval \<Rightarrow> mval \<Rightarrow> bool"
  and py_eq_list :: "mval list \<Rightarrow> mval list \<Rightarrow> bool"
  and py_eq_items :: "(string \<times> mval) list \<Rightarrow> (string \<times> mval) list \<Rightarrow> bool" where
  "py_eq MNone w = (w = MNone)"
| "py_eq (MBool a) w =
     (case w of MBool b \<Rightarrow> a = b | MInt j \<Rightarrow> (if a then 1 else 0) = j | _ \<Rightarrow> False)"
| "py_eq (MInt i) w =
     (case w of MBool b \<Rightarrow> i = (if b then 1 else 0) | MInt j \<Rightarrow> i = j | _ \<Rightarrow> False)"
| "py_eq (MStr s) w = (w = MStr s)"
| "py_eq (MList xs) w = (case w of MList ys \<Rightarrow> py_eq_list xs ys | _ \<Rightarrow> False)"
| "py_eq (MDict a) w =
     (case w of MDict b \<Rightarrow> length a = length b \<and> py_eq_items a b | _ \<Rightarrow> False)"
| "py_eq_list [] ys = (ys = [])"
| "py_eq_list (x # xs) ys =
     (case ys of [] \<Rightarrow> False | y # ys' \<Rightarrow> py_eq x y \<and> py_eq_list xs ys')"
| "py_eq_items [] b = True"
| "py_eq_items (kv # a) b =
     ((case map_of b (fst kv) of None \<Rightarrow> False | Some v' \<Rightarrow> py_eq (snd kv) v')
      \<and> py_eq_items a b)"

subsection \<open>The helpers of \<open>bundlewrap.metadata\<close> and \<open>bundlewrap.utils.dicts\<close>\<close>

text \<open>
  Modelled from the spec: \<open>merge_dict\<close> (\<open>bundlewrap/utils/dicts.py\<close>) is not among the
  sources; this is \<open>deep_merge(base, overlay)\<close> of section 4.A. Two mappings give the
  mapping over the union of their keys, a key of both with the merge of its two
  values, a key of one with its value; in every other case the result is the overlay.
  The items of the base keep their places, new keys follow in the overlay's order.
\<close>

fun merge_dict :: "mval \<Rightarrow> mval \<Rightarrow> mval"
  and merge_items :: "(string \<times> mval) list \<Rightarrow> (string \<times> mval) list \<Rightarrow> (string \<times> mval) list" where
  "merge_dict base (MDict upd) =
     (case base of MDict b \<Rightarrow> MDict (merge_items b upd) | _ \<Rightarrow> MDict upd)"
| "merge_dict base MNone = MNone"
| "merge_dict base (MBool x) = MBool x"
| "merge_dict base (MInt x) = MInt x"
| "merge_dict base (MStr x) = MStr x"
| "merge_dict base (MList x) = MList x"
| "merge_items b [] = b"
| "merge_items b (kv # upd) =
     merge_items
       (case map_of b (fst kv) of
          None \<Rightarrow> b @ [kv]
        | Some bv \<Rightarrow> AList.update (fst kv) (merge_dict bv (snd kv)) b)
       upd"

text \<open>
  Modelled from the spec: \<open>value_at_key_path\<close> (\<open>bundlewrap/metadata.py\<close>) is not among the
  sources; this is \<open>value_at_path(value, path)\<close> of section 4.A. It descends mapping by
  mapping and fails (\<open>None\<close> here, the \<open>KeyError\<close> that \<open>Metastack.get\<close> catches) when a segment
  is missing or the descent meets a value that is not a mapping.
\<close>

fun value_at_key_path :: "mval \<Rightarrow> string list \<Rightarrow> mval option" where
  "value_at_key_path v [] = Some v"
| "value_at_key_path (MDict kvs) (k # ks) =
     (case map_of kvs k of None \<Rightarrow> None | Some v \<Rightarrow> value_at_key_path v ks)"
| "value_at_key_path v (k # ks) = None"

text \<open>
  Modelled from the spec: \<open>freeze_object\<close> (\<open>bundlewrap/utils/dicts.py\<close>) is not among the
  sources; this is \<open>deep_freeze(value)\<close> of section 4.A, a snapshot of the same structure in
  which mappings and lists are read-only. The frozen values are a type of their own.
\<close>

datatype frozen =
    FNone
  | FBool bool
  | FInt int
  | FStr string
  | FList "frozen list"
  | FDict "(string \<times> frozen) list"

primrec freeze_object :: "mval \<Rightarrow> frozen" where
  "freeze_object MNone = FNone"
| "freeze_object (MBool b) = FBool b"
| "freeze_object (MInt i) = FInt i"
| "freeze_object (MStr s) = FStr s"
| "freeze_object (MList xs) = FList (map freeze_object xs)"
| "freeze_object (MDict kvs) = FDict (map (map_prod (\<lambda>k. k) freeze_object) kvs)"

datatype meta_error = MetastackKeyError "string list" | KeyError string | TypeError | InvalidMetadata

text \<open>
  Modelled from the spec: \<open>validate_metadata\<close> (\<open>bundlewrap/metadata.py\<close>) is not among the
  sources; this is \<open>validate(layer)\<close> of section 4.A. The root must be a mapping; that the
  keys are strings and the values metadata values is in the type \<open>mval\<close>.
\<close>

definition validate_metadata :: "mval \<Rightarrow> meta_error + unit" where
  "validate_metadata layer = (case layer of MDict kvs \<Rightarrow> Inr () | _ \<Rightarrow> Inl InvalidMetadata)"

subsection \<open>The class \<open>Metastack\<close>\<close>

text \<open>
  \<open>self._layers\<close>: a dict from layer identifiers to layers that is read in insertion
  order, here the list of its items in that order.
\<close>

type_synonym metastack = "(string \<times> mval) list"

text \<open>A path is given as a list of keys or as one string, which \<open>split('/')\<close> cuts.\<close>

datatype path_arg = PathStr string | PathList "string list"

fun split_on :: "char \<Rightarrow> string \<Rightarrow> string list" where
  "split_on sep [] = [[]]"
| "split_on sep (c # cs) =
     (if c = sep then [] # split_on sep cs
      else (case split_on sep cs of [] \<Rightarrow> [[c]] | w # ws \<Rightarrow> (c # w) # ws))"

definition path_keys :: "path_arg \<Rightarrow> string list" where
  "path_keys path = (case path of PathList ks \<Rightarrow> ks | PathStr s \<Rightarrow> split_on CHR ''/'' s)"

text \<open>
  The loop of \<open>Metastack.get\<close> over \<open>self._layers.values()\<close>, on its two variables \<open>result\<close> and
  \<open>undef\<close>.
\<close>

fun get_loop :: "mval list \<Rightarrow> string list \<Rightarrow> mval \<times> bool \<Rightarrow> mval \<times> bool" where
  "get_loop [] path ru = ru"
| "get_loop (layer # layers) path ru =
     (case value_at_key_path layer path of
        None \<Rightarrow> get_loop layers path ru
      | Some v \<Rightarrow>
          if snd ru then get_loop layers path (MDict [(''data'', v)], False)
          else get_loop layers path (merge_dict (fst ru) (MDict [(''data'', v)]), False))"

text \<open>
  What \<open>get\<close> returns: the frozen merged value, or the caller's default as it was passed.
\<close>

datatype 'd get_value = Merged frozen | Default 'd

text \<open>\<open>result['data']\<close>, with the errors of a subscript on a value without the key.\<close>

definition subscript :: "mval \<Rightarrow> string \<Rightarrow> meta_error + mval" where
  "subscript v k =
     (case v of
        MDict kvs \<Rightarrow> (case map_of kvs k of None \<Rightarrow> Inl (KeyError k) | Some x \<Rightarrow> Inr x)
      | _ \<Rightarrow> Inl TypeError)"

definition Metastack_get :: "metastack \<Rightarrow> path_arg \<Rightarrow> 'd \<Rightarrow> bool \<Rightarrow> meta_error + 'd get_value" where
  "Metastack_get layers path dflt use_default =
     (let ru = get_loop (map snd layers) (path_keys path) (MNone, True) in
      if snd ru
      then if use_default then Inr (Default dflt)
           else Inl (MetastackKeyError (path_keys path))
      else (case subscript (fst ru) ''data'' of
              Inl e \<Rightarrow> Inl e
            | Inr v \<Rightarrow> Inr (Merged (freeze_object v))))"

text \<open>\<open>Metastack.has\<close> catches \<open>MetastackKeyError\<close> and nothing else.\<close>

definition Metastack_has :: "metastack \<Rightarrow> path_arg \<Rightarrow> meta_error + bool" where
  "Metastack_has layers path =
     (case Metastack_get layers path ''<unused>'' False of
        Inl (MetastackKeyError p) \<Rightarrow> Inr False
      | Inl e \<Rightarrow> Inl e
      | Inr v \<Rightarrow> Inr True)"

text \<open>
  \<open>Metastack._set_layer\<close>: \<open>self._layers.get(identifier, {})\<close> is the stored layer or the
  empty dict; assigning to an identifier already in the dict keeps its place, a new
  identifier goes to the end. The call returns \<open>changed\<close>, here with the new layers.
\<close>

definition set_layer :: "metastack \<Rightarrow> string \<Rightarrow> mval \<Rightarrow> meta_error + bool \<times> metastack" where
  "set_layer layers identifier new_layer =
     (case validate_metadata new_layer of
        Inl e \<Rightarrow> Inl e
      | Inr u \<Rightarrow>
          let changed =
                \<not> py_eq (case map_of layers identifier of None \<Rightarrow> MDict [] | Some l \<Rightarrow> l)
                         new_layer
          in Inr (changed, AList.update identifier new_layer layers))"

text \<open>The values the layers hold at a path, in the order of the layers.\<close>

definition values_at :: "metastack \<Rightarrow> string list \<Rightarrow> mval list" where
  "values_at layers p = List.map_filter (\<lambda>il. value_at_key_path (snd il) p) layers"

section \<open>Properties of the validators\<close>



















lemma ATTRIBUTE_VALIDATORS_default:
  "key \<noteq> ''content_type'' \<Longrightarrow> key \<noteq> ''mode'' \<Longrightarrow> ATTRIBUTE_VALIDATORS t key iid v = Inr ()"
  by (simp add: ATTRIBUTE_VALIDATORS_def)

lemma validate_attributes_filter:
  "validate_attributes t iid attrs = validate_attributes t iid (filter checked_key attrs)"
proof (induction attrs)
  case Nil
  then show ?case by simp
next
  case (Cons kv attrs)
  obtain k v where kv: "kv = (k, v)" by (cases kv)
  show ?case
  proof (cases "checked_key kv")
    case True
    then show ?thesis using Cons kv by (simp split: sum.splits)
  next
    case False
    then have "ATTRIBUTE_VALIDATORS t k iid v = Inr ()"
      using kv by (simp add: checked_key_def ATTRIBUTE_VALIDATORS_def)
    then show ?thesis using Cons kv False by simp
  qed
qed

text \<open>
  Claim C10. \<open>File.validate_attributes\<close> checks only the keys \<open>content_type\<close> and
  \<open>mode\<close>: the outcome is that of validating those entries alone, an attribute dict
  without them is accepted whatever its values, and the registry's validator for any
  other key accepts every value.
\<close>

theorem validate_attributes_only_checks_two_keys:
  "validate_attributes t iid attrs = validate_attributes t iid (filter checked_key attrs)
   \<and> (list_all (\<lambda>kv. \<not> checked_key kv) attrs \<longrightarrow> validate_attributes t iid attrs = Inr ())
   \<and> (key \<noteq> ''content_type'' \<and> key \<noteq> ''mode'' \<longrightarrow> ATTRIBUTE_VALIDATORS t key iid v = Inr ())"
proof -
  have "list_all (\<lambda>kv. \<not> checked_key kv) attrs \<Longrightarrow> filter checked_key attrs = []"
    by (induction attrs) auto
  then have "list_all (\<lambda>kv. \<not> checked_key kv) attrs \<longrightarrow> validate_attributes t iid attrs = Inr ()"
    using validate_attributes_filter[of t iid attrs] by auto
  then show ?thesis
    using validate_attributes_filter[of t iid attrs] ATTRIBUTE_VALIDATORS_default[of key t iid v]
    by blast
qed

theorem validate_attributes_only_checks_two_keys_witness:
  "list_all (\<lambda>kv. \<not> checked_key kv) [(''owner'', IntVal 7), (''content'', NoneVal)]
   \<and> validate_attributes example_unicode_data ''file:/etc/motd''
        [(''owner'', IntVal 7), (''content'', NoneVal)] = Inr ()
   \<and> ''group'' \<noteq> ''content_type'' \<and> ''group'' \<noteq> ''mode''
   \<and> ATTRIBUTE_VALIDATORS example_unicode_data ''group'' ''file:/etc/motd'' (StrVal ''648'')
       = Inr ()
   \<and> validate_attributes example_unicode_data ''file:/etc/motd''
        [(''owner'', IntVal 7), (''mode'', StrVal ''648'')]
       = validate_attributes example_unicode_data ''file:/etc/motd'' [(''mode'', StrVal ''648'')]"
proof -
  have h: "list_all (\<lambda>kv. \<not> checked_key kv) [(''owner'', IntVal 7), (''content'', NoneVal)]"
    by (simp add: checked_key_def)
  have k: "''group'' \<noteq> ''content_type'' \<and> ''group'' \<noteq> ''mode''" by simp
  have f: "filter checked_key [(''owner'', IntVal 7), (''mode'', StrVal ''648'')] = [(''mode'', StrVal ''648'')]"
    by (simp add: checked_key_def)
  show ?thesis
    using h k f
      validate_attributes_only_checks_two_keys
        [of example_unicode_data "''file:/etc/motd''" "[(''owner'', IntVal 7), (''content'', NoneVal)]"
          "''group''" "StrVal ''648''"]
      validate_attributes_only_checks_two_keys
        [of example_unicode_data "''file:/etc/motd''" "[(''owner'', IntVal 7), (''mode'', StrVal ''648'')]"
          "''group''" "StrVal ''648''"]
    by simp
qed

section \<open>Properties of the aggregator\<close>

lemma ApplyResult_step_first_clause:
  "ApplyResult_step r ba =
     (case first_clause ba of
        None \<Rightarrow> Inl (RuntimeError (fst ba) (snd ba))
      | Some Correct \<Rightarrow> Inr (r\<lparr>ar_correct := ar_correct r + 1\<rparr>)
      | Some Aborted \<Rightarrow> Inr (r\<lparr>ar_aborted := ar_aborted r + 1\<rparr>)
      | Some Unfixable \<Rightarrow> Inr (r\<lparr>ar_unfixable := ar_unfixable r + 1\<rparr>)
      | Some Fixed \<Rightarrow> Inr (r\<lparr>ar_fixed := ar_fixed r + 1\<rparr>)
      | Some Failed \<Rightarrow> Inr (r\<lparr>ar_failed := ar_failed r + 1\<rparr>))"
  by (simp add: ApplyResult_step_def first_clause_def Let_def)

lemma ApplyResult_step_counter:
  assumes "first_clause ba = Some k"
  shows "\<exists>r'. ApplyResult_step r ba = Inr r'
           \<and> (\<forall>k'. counter k' r' = counter k' r + (if k' = k then 1 else 0))"
proof -
  have "\<forall>k'. counter k' (r\<lparr>ar_correct := ar_correct r + 1\<rparr>) = counter k' r + (if k' = Correct then 1 else 0)"
    "\<forall>k'. counter k' (r\<lparr>ar_aborted := ar_aborted r + 1\<rparr>) = counter k' r + (if k' = Aborted then 1 else 0)"
    "\<forall>k'. counter k' (r\<lparr>ar_unfixable := ar_unfixable r + 1\<rparr>) = counter k' r + (if k' = Unfixable then 1 else 0)"
    "\<forall>k'. counter k' (r\<lparr>ar_fixed := ar_fixed r + 1\<rparr>) = counter k' r + (if k' = Fixed then 1 else 0)"
    "\<forall>k'. counter k' (r\<lparr>ar_failed := ar_failed r + 1\<rparr>) = counter k' r + (if k' = Failed then 1 else 0)"
    by (intro allI, case_tac k', simp_all)+
  then show ?thesis
    using assms by (cases k) (simp_all add: ApplyResult_step_first_clause)
qed

lemma ApplyResult_step_None:
  "first_clause ba = None \<Longrightarrow> ApplyResult_step r ba = Inl (RuntimeError (fst ba) (snd ba))"
  by (simp add: ApplyResult_step_first_clause)

lemma ApplyResult_loop_Inl:
  "(\<exists>e. ApplyResult_loop r rs = Inl e) \<longleftrightarrow> (\<exists>ba \<in> set rs. first_clause ba = None)"
proof (induction rs arbitrary: r)
  case Nil
  then show ?case by simp
next
  case (Cons ba rs)
  show ?case
  proof (cases "first_clause ba")
    case None
    then show ?thesis by (simp add: ApplyResult_step_None)
  next
    case (Some k)
    from ApplyResult_step_counter[OF Some, of r]
    obtain r' where "ApplyResult_step r ba = Inr r'" by blast
    then show ?thesis using Cons.IH[of r'] Some by simp
  qed
qed

lemma ApplyResult_loop_counter:
  "ApplyResult_loop r rs = Inr r' \<Longrightarrow>
     counter k r' = counter k r + length (filter (\<lambda>ba. first_clause ba = Some k) rs)"
proof (induction rs arbitrary: r)
  case Nil
  then show ?case by simp
next
  case (Cons ba rs)
  show ?case
  proof (cases "first_clause ba")
    case None
    then show ?thesis using Cons.prems by (simp add: ApplyResult_step_None)
  next
    case (Some k0)
    from ApplyResult_step_counter[OF Some, of r]
    obtain r1 where r1: "ApplyResult_step r ba = Inr r1"
      and c: "counter k r1 = counter k r + (if k = k0 then 1 else 0)" by blast
    from Cons.prems r1 have "ApplyResult_loop r1 rs = Inr r'" by simp
    from Cons.IH[OF this] c Some show ?thesis by auto
  qed
qed

lemma ApplyResult_loop_total:
  "ApplyResult_loop r rs = Inr r' \<Longrightarrow>
     ar_correct r' + ar_aborted r' + ar_unfixable r' + ar_fixed r' + ar_failed r'
       = ar_correct r + ar_aborted r + ar_unfixable r + ar_fixed r + ar_failed r + length rs"
proof (induction rs arbitrary: r)
  case Nil
  then show ?case by simp
next
  case (Cons ba rs)
  from Cons.prems obtain r1 where r1: "ApplyResult_step r ba = Inr r1"
    and l: "ApplyResult_loop r1 rs = Inr r'"
    by (auto split: sum.splits)
  from r1 have "ar_correct r1 + ar_aborted r1 + ar_unfixable r1 + ar_fixed r1 + ar_failed r1
       = ar_correct r + ar_aborted r + ar_unfixable r + ar_fixed r + ar_failed r + 1"
    by (auto simp: ApplyResult_step_def Let_def split: if_splits)
  with Cons.IH[OF l] show ?case by simp
qed

text \<open>
  Claim C4. For every pair of statuses the aggregator adds one to exactly one counter, the
  one of the first clause (correct, aborted, unfixable, fixed, failed, in this order) that
  matches the pair, and leaves the others; a pair that matches no clause raises the
  error naming the two statuses. A sequence of pairs raises exactly when one of its
  pairs matches no clause; otherwise each counter is the number of pairs of its class
  and the five counters add up to the number of pairs.
\<close>

theorem ApplyResult_counts:
  "(first_clause ba = Some k \<longrightarrow>
      (\<exists>r'. ApplyResult_step r ba = Inr r'
         \<and> (\<forall>k'. counter k' r' = counter k' r + (if k' = k then 1 else 0))))
   \<and> (first_clause ba = None \<longrightarrow> ApplyResult_step r ba = Inl (RuntimeError (fst ba) (snd ba)))
   \<and> ((\<exists>e. ApplyResult rs = Inl e) \<longleftrightarrow> (\<exists>ba \<in> set rs. first_clause ba = None))
   \<and> (ApplyResult rs = Inr r' \<longrightarrow>
        (\<forall>k'. counter k' r' = length (filter (\<lambda>ba. first_clause ba = Some k') rs))
        \<and> ar_correct r' + ar_aborted r' + ar_unfixable r' + ar_fixed r' + ar_failed r'
            = length rs)"
proof -
  have 3: "(\<exists>e. ApplyResult rs = Inl e) \<longleftrightarrow> (\<exists>ba \<in> set rs. first_clause ba = None)"
    unfolding ApplyResult_def by (rule ApplyResult_loop_Inl)
  have 4: "ApplyResult rs = Inr r' \<longrightarrow>
        (\<forall>k'. counter k' r' = length (filter (\<lambda>ba. first_clause ba = Some k') rs))"
  proof (intro impI allI)
    fix k' assume "ApplyResult rs = Inr r'"
    then have "ApplyResult_loop \<lparr>ar_correct = 0, ar_fixed = 0, ar_aborted = 0, ar_unfixable = 0, ar_failed = 0\<rparr> rs = Inr r'"
      by (simp add: ApplyResult_def)
    from ApplyResult_loop_counter[OF this, of k']
    show "counter k' r' = length (filter (\<lambda>ba. first_clause ba = Some k') rs)"
      by (cases k') simp_all
  qed
  have 5: "ApplyResult rs = Inr r' \<longrightarrow>
     ar_correct r' + ar_aborted r' + ar_unfixable r' + ar_fixed r' + ar_failed r' = length rs"
    unfolding ApplyResult_def using ApplyResult_loop_total[of _ rs r'] by auto
  show ?thesis
    using ApplyResult_step_counter[of ba k r] ApplyResult_step_None[of ba r] 3 4 5 by blast
qed

theorem ApplyResult_counts_witness:
  "first_clause (mk_status False True False, mk_status True True False) = Some Fixed
   \<and> ApplyResult_step \<lparr>ar_correct = 0, ar_fixed = 0, ar_aborted = 0, ar_unfixable = 0, ar_failed = 0\<rparr>
        (mk_status False True False, mk_status True True False)
      = Inr \<lparr>ar_correct = 0, ar_fixed = 1, ar_aborted = 0, ar_unfixable = 0, ar_failed = 0\<rparr>
   \<and> first_clause (mk_status True True False, mk_status False True False) = None
   \<and> ApplyResult_step \<lparr>ar_correct = 0, ar_fixed = 0, ar_aborted = 0, ar_unfixable = 0, ar_failed = 0\<rparr>
        (mk_status True True False, mk_status False True False)
      = Inl (RuntimeError (mk_status True True False) (mk_status False True False))
   \<and> ApplyResult [(mk_status True True False, mk_status True True True), (mk_status True True False, mk_status False True True),
        (mk_status False False False, mk_status True True False), (mk_status False True False, mk_status False True False)]
      = Inr \<lparr>ar_correct = 1, ar_fixed = 0, ar_aborted = 1, ar_unfixable = 1, ar_failed = 1\<rparr>
   \<and> length (filter (\<lambda>ba. first_clause ba = Some Unfixable)
        [(mk_status True True False, mk_status True True True), (mk_status True True False, mk_status False True True),
        (mk_status False False False, mk_status True True False), (mk_status False True False, mk_status False True False)]) = 1
   \<and> (\<exists>e. ApplyResult [(mk_status False True False, mk_status True True False), (mk_status True True False, mk_status False True False)] = Inl e)"
proof -
  let ?z = "\<lparr>ar_correct = 0, ar_fixed = 0, ar_aborted = 0, ar_unfixable = 0, ar_failed = 0\<rparr>"
  let ?rs = "[(mk_status True True False, mk_status True True True), (mk_status True True False, mk_status False True True),
        (mk_status False False False, mk_status True True False), (mk_status False True False, mk_status False True False)]"
  have a: "first_clause (mk_status False True False, mk_status True True False) = Some Fixed"
    by (simp add: first_clause_def mk_status_def)
  have b: "first_clause (mk_status True True False, mk_status False True False) = None"
    by (simp add: first_clause_def mk_status_def)
  have c: "ApplyResult ?rs = Inr \<lparr>ar_correct = 1, ar_fixed = 0, ar_aborted = 1, ar_unfixable = 1, ar_failed = 1\<rparr>"
    by (simp add: ApplyResult_def ApplyResult_step_def mk_status_def)
  have d: "\<exists>ba \<in> set [(mk_status False True False, mk_status True True False), (mk_status True True False, mk_status False True False)].
      first_clause ba = None"
    using b by simp
  have e: "ApplyResult_step ?z (mk_status False True False, mk_status True True False)
      = Inr \<lparr>ar_correct = 0, ar_fixed = 1, ar_aborted = 0, ar_unfixable = 0, ar_failed = 0\<rparr>"
    "ApplyResult_step ?z (mk_status True True False, mk_status False True False)
      = Inl (RuntimeError (mk_status True True False) (mk_status False True False))"
    by (simp_all add: ApplyResult_step_def mk_status_def)
  note t1 = ApplyResult_counts[of "(mk_status False True False, mk_status True True False)" Fixed ?z ?rs
         "\<lparr>ar_correct = 1, ar_fixed = 0, ar_aborted = 1, ar_unfixable = 1, ar_failed = 1\<rparr>"]
  note t2 = ApplyResult_counts[of "(mk_status True True False, mk_status False True False)" Fixed ?z
         "[(mk_status False True False, mk_status True True False), (mk_status True True False, mk_status False True False)]"
         "\<lparr>ar_correct = 1, ar_fixed = 0, ar_aborted = 1, ar_unfixable = 1, ar_failed = 1\<rparr>"]
  from t1 c have "\<forall>k'. counter k' \<lparr>ar_correct = 1, ar_fixed = 0, ar_aborted = 1, ar_unfixable = 1, ar_failed = 1\<rparr>
      = length (filter (\<lambda>ba. first_clause ba = Some k') ?rs)"
    by blast
  then have "counter Unfixable \<lparr>ar_correct = 1, ar_fixed = 0, ar_aborted = 1, ar_unfixable = 1, ar_failed = 1\<rparr>
      = length (filter (\<lambda>ba. first_clause ba = Some Unfixable) ?rs)"
    by (rule spec)
  then have f: "length (filter (\<lambda>ba. first_clause ba = Some Unfixable) ?rs) = 1"
    by simp
  from t2 d have g: "\<exists>e. ApplyResult [(mk_status False True False, mk_status True True False), (mk_status True True False, mk_status False True False)] = Inl e"
    by blast
  from a b c e f g show ?thesis by blast
qed

section \<open>Properties of the scheduler\<close>

lemma foldl_remove1_filter:
  "\<forall>y \<in> set ys. \<not> P y \<Longrightarrow>
     foldl (\<lambda>xs x. remove1 x xs) (ys @ xs) (filter P xs) = ys @ filter (\<lambda>x. \<not> P x) xs"
proof (induction xs arbitrary: ys)
  case Nil
  then show ?case by simp
next
  case (Cons x xs)
  show ?case
  proof (cases "P x")
    case True
    with Cons.prems have "x \<notin> set ys" by auto
    then have "remove1 x (ys @ x # xs) = ys @ xs"
      by (simp add: remove1_append)
    with True Cons.IH[OF Cons.prems] show ?thesis by simp
  next
    case False
    with Cons.prems have "\<forall>y \<in> set (ys @ [x]). \<not> P y" by simp
    from Cons.IH[OF this] False show ?thesis by simp
  qed
qed

lemma split_items_without_deps_filter:
  "split_items_without_deps items =
     (filter (\<lambda>i. deps_of i \<noteq> []) items, filter (\<lambda>i. deps_of i = []) items)"
  using foldl_remove1_filter[of "[]" "\<lambda>i. deps_of i = []" items]
  by (simp add: split_items_without_deps_def Let_def)

lemma id_of_set_deps [simp]: "id_of (set_deps ds g) = id_of g"
  by (cases g) simp_all

lemma deps_of_set_deps [simp]: "deps_of (set_deps ds g) = ds"
  by (cases g) simp_all

lemma foldl_step_invariant:
  assumes "P s" and "\<And>s e. P s \<Longrightarrow> P (step s e)"
  shows "P (foldl step s events)"
  using assms(1)
proof (induction events arbitrary: s)
  case Nil
  then show ?case by simp
next
  case (Cons e events)
  then show ?case using assms(2) by simp
qed

lemma exit_inv_init: "exit_inv (apply_items_init items n interact)"
  by (simp add: exit_inv_def apply_items_init_def split_items_without_deps_filter)

lemma exit_inv_step: "exit_inv s \<Longrightarrow> exit_inv (step s e)"
proof (cases e)
  case (Run k)
  assume "exit_inv s"
  then show ?thesis
    unfolding Run
    by (cases "place s")
       (auto simp: exit_inv_def sched_step_def busy_count_def reapable_count_def Let_def
          split_items_without_deps_filter split: prod.splits)
next
  case (Finish k)
  assume "exit_inv s"
  then show ?thesis
    unfolding Finish by (auto simp: exit_inv_def finish_task_def)
qed

lemma exit_inv_apply_items: "exit_inv (apply_items events items n interact)"
  unfolding apply_items_def
  by (rule foldl_step_invariant[OF exit_inv_init exit_inv_step])


lemma pool_size_step [simp]: "pool_size (workers (step s e)) = pool_size (workers s)"
proof (cases e)
  case (Run k)
  show ?thesis
    unfolding Run
    by (cases "place s")
       (auto simp: sched_step_def start_task_def reap_def Let_def split: prod.splits)
next
  case (Finish k)
  show ?thesis unfolding Finish by (simp add: finish_task_def)
qed

lemma length_remove_nth:
  assumes "xs \<noteq> []"
  shows "length (take (k mod length xs) xs @ drop (Suc (k mod length xs)) xs) = length xs - 1"
proof -
  from assms have "k mod length xs < length xs" by simp
  then show ?thesis by (simp add: min_def)
qed

lemma length_finish_task:
  "busy p \<noteq> [] \<Longrightarrow> length (busy (finish_task k p)) = length (busy p) - 1
     \<and> length (reapable (finish_task k p)) = length (reapable p) + 1"
  using length_remove_nth[of "busy p" k] by (simp add: finish_task_def)

lemma length_reap:
  "reapable p \<noteq> [] \<Longrightarrow> length (reapable (reap k p)) = length (reapable p) - 1
     \<and> busy (reap k p) = busy p"
  using length_remove_nth[of "reapable p" k] by (simp add: reap_def)

lemma length_split:
  "split_items_without_deps xs = (a, b) \<Longrightarrow> length a + length b = length xs"
  using sum_length_filter_compl[of "\<lambda>i. deps_of i = []" xs]
  by (auto simp: split_items_without_deps_filter)

lemma wait_inv_step: "wait_inv s \<Longrightarrow> wait_inv (step s e)"
proof (cases e)
  case (Run k)
  assume "wait_inv s"
  then show ?thesis
    unfolding Run
    by (cases "place s")
       (auto simp: wait_inv_def sched_step_def busy_count_def reapable_count_def Let_def
          split: prod.splits)
next
  case (Finish k)
  assume "wait_inv s"
  then show ?thesis
    unfolding Finish by (auto simp: wait_inv_def finish_task_def)
qed

lemma progress_finish:
  assumes "place s \<noteq> Finished" "busy (workers s) \<noteq> []"
  shows "(step s (Finish 0), s) \<in> measures [unreaped, unfinished, steps_to_progress]"
proof -
  from length_finish_task[OF assms(2), of 0] assms
  have "unreaped (step s (Finish 0)) = unreaped s"
    and "unfinished (step s (Finish 0)) < unfinished s"
    by (auto simp: unreaped_def unfinished_def)
  then show ?thesis by simp
qed


lemma pop_decreases: "xs \<noteq> [] \<Longrightarrow> Suc (2 * (length xs - Suc 0)) < 2 * length xs"
  by (cases xs) simp_all

lemma progress_run:
  assumes "place s \<noteq> Finished" "busy (workers s) = []" "wait_inv s" "0 < pool_size (workers s)"
  shows "(step s (Run 0), s) \<in> measures [unreaped, unfinished, steps_to_progress]"
proof (cases "place s")
  case AtOuter
  then show ?thesis using assms
    by (auto simp: sched_step_def busy_count_def reapable_count_def steps_to_progress_def
        unreaped_def unfinished_def)
next
  case AtDispatch
  then show ?thesis using assms
    by (auto simp: sched_step_def busy_count_def reapable_count_def steps_to_progress_def
        unreaped_def unfinished_def has_idle_worker_def start_task_def Let_def pop_decreases)
next
  case AtReap
  show ?thesis
  proof (cases "reapable (workers s) = []")
    case True
    then show ?thesis using assms AtReap
      by (auto simp: sched_step_def busy_count_def reapable_count_def steps_to_progress_def
        unreaped_def unfinished_def)
  next
    case False
    obtain dep result where g: "get_reapable_worker 0 (workers s) = (dep, result)"
      by (cases "get_reapable_worker 0 (workers s)")
    obtain a b where sp: "split_items_without_deps (remove_dep_from_items (items_with_deps s) dep) = (a, b)"
      by (cases "split_items_without_deps (remove_dep_from_items (items_with_deps s) dep)")
    from length_split[OF sp] have l: "length a + length b = length (items_with_deps s)"
      by (simp add: remove_dep_from_items_def)
    from False AtReap g sp have
      "unreaped (step s (Run 0)) = length a + length b + length (busy (reap 0 (workers s)))
          + length (reapable (reap 0 (workers s)))"
      by (simp add: sched_step_def reapable_count_def unreaped_def)
    with l length_reap[OF False, of 0] False have "unreaped (step s (Run 0)) < unreaped s"
      by (cases "reapable (workers s)") (auto simp: unreaped_def)
    then show ?thesis by simp
  qed
next
  case AtIdle
  then show ?thesis using assms
    by (auto simp: sched_step_def busy_count_def reapable_count_def steps_to_progress_def
        unreaped_def unfinished_def)
next
  case AtWait
  then show ?thesis using assms
    by (auto simp: sched_step_def busy_count_def reapable_count_def steps_to_progress_def
        unreaped_def unfinished_def wait_inv_def)
next
  case Finished
  then show ?thesis using assms by simp
qed

lemma progress:
  assumes "place s \<noteq> Finished" "wait_inv s" "0 < pool_size (workers s)"
  shows "(step s (next_event s), s) \<in> measures [unreaped, unfinished, steps_to_progress]"
  using progress_finish[of s] progress_run[of s] assms by (simp add: next_event_def)

lemma can_finish:
  assumes "wait_inv s" "0 < pool_size (workers s)"
  shows "\<exists>more. place (foldl step s more) = Finished"
proof -
  have "wf (measures [unreaped, unfinished, steps_to_progress])" by simp
  then show ?thesis using assms
  proof (induction s rule: wf_induct_rule)
    case (less s)
    show ?case
    proof (cases "place s = Finished")
      case True
      then have "place (foldl step s []) = Finished" by simp
      then show ?thesis by blast
    next
      case False
      let ?s' = "step s (next_event s)"
      from progress[OF False less.prems] have "(?s', s) \<in> measures [unreaped, unfinished, steps_to_progress]" .
      moreover have "wait_inv ?s'" using less.prems(1) by (rule wait_inv_step)
      moreover have "0 < pool_size (workers ?s')" using less.prems(2) by simp
      ultimately obtain more where "place (foldl step ?s' more) = Finished"
        using less.IH by blast
      then have "place (foldl step s (next_event s # more)) = Finished" by simp
      then show ?thesis by blast
    qed
  qed
qed

lemma wait_inv_init: "wait_inv (apply_items_init items n interact)"
  by (simp add: wait_inv_def apply_items_init_def split: prod.splits)

lemma pool_size_apply_items: "pool_size (workers (apply_items events items n interact)) = nat n"
proof -
  have "pool_size (workers (foldl step s events)) = pool_size (workers s)" for s
    by (induction events arbitrary: s) simp_all
  then show ?thesis
    by (simp add: apply_items_def apply_items_init_def WorkerPool_def split: prod.splits)
qed

lemma apply_items_can_finish:
  assumes "0 < n"
  shows "\<exists>more. place (apply_items (events @ more) items n interact) = Finished"
proof -
  have "wait_inv (apply_items events items n interact)"
    unfolding apply_items_def by (rule foldl_step_invariant[OF wait_inv_init wait_inv_step])
  moreover have "0 < pool_size (workers (apply_items events items n interact))"
    using assms by (simp add: pool_size_apply_items)
  ultimately show ?thesis
    using can_finish[of "apply_items events items n interact"] by (simp add: apply_items_def)
qed

lemma inject_loop_items:
  "snd (inject_loop items ds) = map (\<lambda>i. i\<lparr>deps := DEPENDS_STATIC i @ depends i\<rparr>) items"
proof (induction items arbitrary: ds)
  case Nil
  then show ?case by simp
next
  case (Cons i items)
  let ?ds = "dep_types (DEPENDS_STATIC i @ depends i)
     (append_dep (item_type_of (item_id i)) (item_id i) (add_dummy (item_type_of (item_id i)) ds))"
  obtain ds3 rest where r: "inject_loop items ?ds = (ds3, rest)"
    by (cases "inject_loop items ?ds")
  with Cons[of ?ds] have "rest = map (\<lambda>i. i\<lparr>deps := DEPENDS_STATIC i @ depends i\<rparr>) items"
    by simp
  with r show ?case by (simp add: Let_def)
qed

lemma inject_dummy_items_concrete:
  assumes "i \<in> set items"
  shows "Item (i\<lparr>deps := DEPENDS_STATIC i @ depends i\<rparr>) \<in> set (inject_dummy_items items)"
proof -
  obtain ds items' where l: "inject_loop items [] = (ds, items')"
    by (cases "inject_loop items []")
  with inject_loop_items[of items "[]"]
  have "items' = map (\<lambda>i. i\<lparr>deps := DEPENDS_STATIC i @ depends i\<rparr>) items" by simp
  with assms l show ?thesis by (auto simp: inject_dummy_items_def)
qed

lemma unknown_inv_init:
  assumes "i \<in> set items" and "d \<in> set (DEPENDS_STATIC i @ depends i)"
  shows "unknown_inv (id_of ` set (inject_dummy_items items)) (item_id i) d
           (apply_items_init items n interact)"
proof -
  let ?g = "Item (i\<lparr>deps := DEPENDS_STATIC i @ depends i\<rparr>)"
  have "?g \<in> set (inject_dummy_items items)"
    using assms(1) by (rule inject_dummy_items_concrete)
  moreover have "deps_of ?g \<noteq> []" "id_of ?g = item_id i" "d \<in> set (deps_of ?g)"
    using assms(2) by auto
  ultimately have "\<exists>g \<in> set (filter (\<lambda>i. deps_of i \<noteq> []) (inject_dummy_items items)).
      id_of g = item_id i \<and> d \<in> set (deps_of g)"
    by (intro bexI[of _ ?g]) simp_all
  then show ?thesis
    by (auto simp: unknown_inv_def apply_items_init_def split_items_without_deps_filter
        WorkerPool_def)
qed

lemma set_remove_nth: "set (take j xs @ drop (Suc j) xs) \<subseteq> set xs"
  using set_take_subset[of j xs] set_drop_subset[of "Suc j" xs] by auto

lemma unknown_inv_step:
  assumes "unknown_inv ids w d s" and "d \<notin> ids"
  shows "unknown_inv ids w d (step s e)"
proof (cases e)
  case (Finish k)
  show ?thesis
  proof (cases "busy (workers s) = []")
    case True
    then show ?thesis using assms Finish by (auto simp: unknown_inv_def finish_task_def)
  next
    case False
    then have "k mod length (busy (workers s)) < length (busy (workers s))" by simp
    then have "busy (workers s) ! (k mod length (busy (workers s))) \<in> set (busy (workers s))"
      by (rule nth_mem)
    moreover have "set (busy (finish_task k (workers s))) \<subseteq> set (busy (workers s))"
      using False set_remove_nth[of _ "busy (workers s)"] by (simp add: finish_task_def)
    moreover have "reapable (finish_task k (workers s))
        = reapable (workers s) @ [busy (workers s) ! (k mod length (busy (workers s)))]"
      using False by (simp add: finish_task_def)
    ultimately show ?thesis using assms False Finish
      by (auto simp: unknown_inv_def)
  qed
next
  case (Run k)
  show ?thesis
  proof (cases "place s")
    case AtOuter
    then show ?thesis using assms Run by (auto simp: unknown_inv_def sched_step_def)
  next
    case AtDispatch
    have "items_without_deps s \<noteq> [] \<Longrightarrow> id_of (last (items_without_deps s)) \<in> ids"
      using assms(1) by (auto simp: unknown_inv_def)
    moreover have "set (butlast (items_without_deps s)) \<subseteq> set (items_without_deps s)"
      by (auto dest: in_set_butlastD)
    ultimately show ?thesis using assms Run AtDispatch
      by (auto simp: unknown_inv_def sched_step_def start_task_def Let_def)
  next
    case AtReap
    show ?thesis
    proof (cases "reapable (workers s) = []")
      case True
      then show ?thesis using assms Run AtReap
        by (auto simp: unknown_inv_def sched_step_def reapable_count_def)
    next
      case False
      obtain dep result where g: "get_reapable_worker k (workers s) = (dep, result)"
        by (cases "get_reapable_worker k (workers s)")
      let ?rest = "remove_dep_from_items (items_with_deps s) dep"
      from False have "k mod length (reapable (workers s)) < length (reapable (workers s))"
        by simp
      then have "get_reapable_worker k (workers s) \<in> set (reapable (workers s))"
        unfolding get_reapable_worker_def by (rule nth_mem)
      with g assms(1) have "dep \<in> ids" by (force simp: unknown_inv_def)
      with assms(2) have ne: "d \<noteq> dep" by auto
      from assms(1) obtain g0 where g0: "g0 \<in> set (items_with_deps s)" "id_of g0 = w"
        "d \<in> set (deps_of g0)" by (auto simp: unknown_inv_def)
      let ?g1 = "set_deps (remove1 dep (deps_of g0)) g0"
      from g0 ne have "?g1 \<in> set ?rest" "id_of ?g1 = w" "d \<in> set (deps_of ?g1)"
        by (auto simp: remove_dep_from_items_def)
      then have a: "\<exists>g \<in> set (filter (\<lambda>i. deps_of i \<noteq> []) ?rest). id_of g = w \<and> d \<in> set (deps_of g)"
        by (intro bexI[of _ ?g1]) auto
      have b: "\<forall>g \<in> set ?rest. id_of g \<in> ids"
        using assms(1) by (auto simp: unknown_inv_def remove_dep_from_items_def)
      have c: "set (reapable (reap k (workers s))) \<subseteq> set (reapable (workers s))"
        "busy (reap k (workers s)) = busy (workers s)"
        using set_remove_nth[of _ "reapable (workers s)"] by (simp_all add: reap_def)
      show ?thesis
        using assms(1) a b c False Run AtReap g
        by (auto simp: unknown_inv_def sched_step_def reapable_count_def
            split_items_without_deps_filter)
    qed
  next
    case AtIdle
    then show ?thesis using assms Run by (auto simp: unknown_inv_def sched_step_def)
  next
    case AtWait
    then show ?thesis using assms Run by (auto simp: unknown_inv_def sched_step_def)
  next
    case Finished
    then show ?thesis using assms Run by (auto simp: unknown_inv_def sched_step_def)
  qed
qed

lemma unknown_inv_apply_items:
  assumes "i \<in> set items" and "d \<in> set (DEPENDS_STATIC i @ depends i)"
    and "d \<notin> id_of ` set (inject_dummy_items items)"
  shows "unknown_inv (id_of ` set (inject_dummy_items items)) (item_id i) d
           (apply_items events items n interact)"
  unfolding apply_items_def
  by (rule foldl_step_invariant[OF unknown_inv_init[OF assms(1,2)] unknown_inv_step[OF _ assms(3)]])

text \<open>
  Claim C2, as amended. When an item has a dependency id that no item of the built graph
  carries (no concrete item and no type-group item), the graph builder does not fail.
  Every run of the scheduler that reaches its end raises \<open>ItemDependencyError\<close>, the error
  of the check after the main loop, and the pending items it lists include that item,
  still waiting for the id. With at least one worker every run can be continued to its
  end.
\<close>

theorem unknown_dependency_raises_at_the_end:
  assumes "i \<in> set items" and "d \<in> set (DEPENDS_STATIC i @ depends i)"
    and "d \<notin> id_of ` set (inject_dummy_items items)"
  shows "(place (apply_items events items n interact) = Finished \<longrightarrow>
            raised (apply_items events items n interact)
              = Some (ItemDependencyError (items_with_deps (apply_items events items n interact)))
            \<and> (\<exists>g \<in> set (items_with_deps (apply_items events items n interact)).
                  id_of g = item_id i \<and> d \<in> set (deps_of g)))
         \<and> (0 < n \<longrightarrow>
              (\<exists>more. place (apply_items (events @ more) items n interact) = Finished))"
proof -
  let ?s = "apply_items events items n interact"
  from unknown_inv_apply_items[OF assms, of events n interact]
  have w: "\<exists>g \<in> set (items_with_deps ?s). id_of g = item_id i \<and> d \<in> set (deps_of g)"
    by (simp add: unknown_inv_def)
  then have "items_with_deps ?s \<noteq> []" by auto
  with exit_inv_apply_items[of events items n interact]
  have "place ?s = Finished \<longrightarrow> raised ?s = Some (ItemDependencyError (items_with_deps ?s))"
    by (simp add: exit_inv_def)
  with w apply_items_can_finish[of n events items interact] show ?thesis by blast
qed

text \<open>
  Claim C5. When the main loop exits (no ready item, no busy worker, no reapable worker)
  and the pending list is not empty, the scheduler raises the dependency error listing
  exactly the pending items. In every finished run the loop's exit condition holds, and
  the run has raised that error over its pending items if there are any and nothing
  otherwise.
\<close>

theorem loop_exit_with_pending_items:
  "(place s = AtOuter \<and> items_without_deps s = [] \<and> busy_count (workers s) = 0
      \<and> reapable_count (workers s) = 0 \<and> items_with_deps s \<noteq> [] \<longrightarrow>
        sched_step k s
          = s\<lparr>place := Finished, raised := Some (ItemDependencyError (items_with_deps s))\<rparr>)
   \<and> (place (apply_items events items n interact) = Finished \<longrightarrow>
        items_without_deps (apply_items events items n interact) = []
        \<and> busy_count (workers (apply_items events items n interact)) = 0
        \<and> reapable_count (workers (apply_items events items n interact)) = 0
        \<and> raised (apply_items events items n interact)
            = (if items_with_deps (apply_items events items n interact) = [] then None
               else Some (ItemDependencyError
                            (items_with_deps (apply_items events items n interact)))))"
  using exit_inv_apply_items[of events items n interact]
  by (simp add: exit_inv_def sched_step_def busy_count_def reapable_count_def)

lemmas run_defs =
  apply_items_def apply_items_init_def inject_dummy_items_def mk_item_def add_dummy_def
  append_dep_def item_type_of_def split_items_without_deps_filter remove_dep_from_items_def
  WorkerPool_def sched_step_def busy_count_def reapable_count_def has_idle_worker_def
  start_task_def get_reapable_worker_def reap_def finish_task_def Let_def one_task_run_def

lemma two_items_init:
  "apply_items_init [mk_item ''file:a'' [] [], mk_item ''file:b'' [] []] 1 False = phase0 AtOuter"
  by (simp add: phase0_def apply_items_init_def inject_dummy_items_def mk_item_def
      add_dummy_def append_dep_def item_type_of_def split_items_without_deps_filter
      WorkerPool_def Let_def)

lemma phase0_steps:
  "step (phase0 p) (Finish k) = phase0 p"
  "step (phase0 AtOuter) (Run k) = phase0 AtDispatch"
  "step (phase0 AtDispatch) (Run k) = phase1 AtDispatch [(''file:b'', Some fixed_result)] []"
  by (simp_all add: phase0_def phase1_def finish_task_def sched_step_def busy_count_def
      reapable_count_def has_idle_worker_def start_task_def mk_item_def)

lemma phase1_steps:
  "step (phase1 p [t] []) (Finish k) = phase1 p [] [t]"
  "step (phase1 p [] [t]) (Finish k) = phase1 p [] [t]"
  "step (phase1 AtOuter b r) (Run k) = phase1 AtDispatch b r"
  "step (phase1 AtDispatch [t] []) (Run k) = phase1 AtReap [t] []"
  "step (phase1 AtDispatch [] [t]) (Run k) = phase1 AtReap [] [t]"
  "step (phase1 AtReap [t] []) (Run k) = phase1 AtIdle [t] []"
  "step (phase1 AtReap [] [(''file:b'', Some fixed_result)]) (Run k) = phase2 AtReap None"
  "step (phase1 AtIdle b r) (Run k) = phase1 AtOuter b r"
  by (simp_all add: phase1_def phase2_def finish_task_def sched_step_def busy_count_def
      reapable_count_def has_idle_worker_def get_reapable_worker_def reap_def
      remove_dep_from_items_def split_items_without_deps_filter)

lemma phase2_steps:
  "step (phase2 p e) (Finish k) = phase2 p e"
  "step (phase2 AtReap None) (Run k) = phase2 AtIdle None"
  "step (phase2 AtIdle None) (Run k) = phase2 AtOuter None"
  "step (phase2 AtOuter None) (Run k)
     = phase2 Finished
         (Some (ItemDependencyError
            [DummyItem \<lparr>item_type = ''file'', dummy_deps = [''file:a'']\<rparr>]))"
  "step (phase2 Finished e) (Run k) = phase2 Finished e"
  by (simp_all add: phase2_def finish_task_def sched_step_def busy_count_def
      reapable_count_def)

lemma two_items_inv_step:
  assumes "two_items_inv s"
  shows "two_items_inv (step s e)"
proof (cases e)
  case (Run k)
  from assms show ?thesis
    unfolding Run two_items_inv_def
    apply (elim disjE exE conjE)
                  apply (simp_all only: phase0_steps phase1_steps phase2_steps)
                  apply blast+
    done
next
  case (Finish k)
  from assms show ?thesis
    unfolding Finish two_items_inv_def
    apply (elim disjE exE conjE)
                  apply (simp_all only: phase0_steps phase1_steps phase2_steps)
                  apply blast+
    done
qed

lemma two_items_inv_Finished:
  assumes "two_items_inv s" "place s = Finished"
  shows "s = phase2 Finished
             (Some (ItemDependencyError
                [DummyItem \<lparr>item_type = ''file'', dummy_deps = [''file:a'']\<rparr>]))"
  using assms unfolding two_items_inv_def
  by (auto simp: phase0_def phase1_def phase2_def)

text \<open>
  Claim C1, at an input where the code departs from it. Two items without dependencies
  and one worker: the second item is started; when it is reaped, the list of ready items
  is replaced by the items the reap has freed, so the first item is dropped without ever
  being started. However the task is scheduled, a finished run has started and reaped
  \<open>file:b\<close> only, has yielded one result and has raised the dependency error over the
  type-group item, which still waits for the dropped item; and every run can be
  continued to its end.
\<close>

theorem ready_items_are_dropped:
  "(place (apply_items events [mk_item ''file:a'' [] [], mk_item ''file:b'' [] []] 1 False)
      = Finished \<longrightarrow>
        trace (apply_items events [mk_item ''file:a'' [] [], mk_item ''file:b'' [] []] 1 False)
          = [Start ''file:b'', Reap ''file:b'']
        \<and> yielded (apply_items events [mk_item ''file:a'' [] [], mk_item ''file:b'' [] []] 1 False)
            = [fixed_result]
        \<and> raised (apply_items events [mk_item ''file:a'' [] [], mk_item ''file:b'' [] []] 1 False)
            = Some (ItemDependencyError
                      [DummyItem \<lparr>item_type = ''file'', dummy_deps = [''file:a'']\<rparr>]))
   \<and> (\<exists>more. place (apply_items (events @ more)
                       [mk_item ''file:a'' [] [], mk_item ''file:b'' [] []] 1 False) = Finished)"
proof -
  let ?items = "[mk_item ''file:a'' [] [], mk_item ''file:b'' [] []]"
  have "two_items_inv (apply_items_init ?items 1 False)"
    by (simp add: two_items_init two_items_inv_def)
  then have "two_items_inv (apply_items events ?items 1 False)"
    unfolding apply_items_def
    by (rule foldl_step_invariant[where P = two_items_inv]) (simp_all add: two_items_inv_step)
  then have "place (apply_items events ?items 1 False) = Finished \<longrightarrow>
        trace (apply_items events ?items 1 False) = [Start ''file:b'', Reap ''file:b'']
        \<and> yielded (apply_items events ?items 1 False) = [fixed_result]
        \<and> raised (apply_items events ?items 1 False)
            = Some (ItemDependencyError
                      [DummyItem \<lparr>item_type = ''file'', dummy_deps = [''file:a'']\<rparr>])"
    using two_items_inv_Finished[of "apply_items events ?items 1 False"]
    by (auto simp: phase2_def)
  moreover have "\<exists>more. place (apply_items (events @ more) ?items 1 False) = Finished"
    by (rule apply_items_can_finish) simp
  ultimately show ?thesis by blast
qed

theorem ready_items_are_dropped_witness:
  "place (apply_items one_task_run [mk_item ''file:a'' [] [], mk_item ''file:b'' [] []] 1 False)
     = Finished
   \<and> trace (apply_items one_task_run [mk_item ''file:a'' [] [], mk_item ''file:b'' [] []] 1 False)
       = [Start ''file:b'', Reap ''file:b'']
   \<and> yielded (apply_items one_task_run [mk_item ''file:a'' [] [], mk_item ''file:b'' [] []] 1 False)
       = [fixed_result]
   \<and> raised (apply_items one_task_run [mk_item ''file:a'' [] [], mk_item ''file:b'' [] []] 1 False)
       = Some (ItemDependencyError
                 [DummyItem \<lparr>item_type = ''file'', dummy_deps = [''file:a'']\<rparr>])"
proof -
  have f: "place (apply_items one_task_run [mk_item ''file:a'' [] [], mk_item ''file:b'' [] []] 1 False)
     = Finished"
    by (simp add: run_defs)
  from ready_items_are_dropped[of one_task_run] f show ?thesis by blast
qed

text \<open>
  Claim C6, at an input where the code departs from it. An item names \<open>file:a\<close> both in
  its static and in its user dependencies: \<open>_deps\<close> is the concatenation and holds the id
  twice, \<open>remove_dep_from_items\<close> takes out one occurrence, and after \<open>file:a\<close> has been
  applied and reaped the item still waits for it. It is never started, and the run ends
  with the dependency error.
\<close>

theorem duplicated_dependency_stays:
  "inject_dummy_items [mk_item ''file:a'' [] [], mk_item ''file:b'' [''file:a''] [''file:a'']]
     = [DummyItem \<lparr>item_type = ''file'', dummy_deps = [''file:a'', ''file:b'']\<rparr>,
        Item (mk_item ''file:a'' [] []),
        Item ((mk_item ''file:b'' [''file:a''] [''file:a''])\<lparr>deps := [''file:a'', ''file:a'']\<rparr>)]
   \<and> remove_dep_from_items
        [Item ((mk_item ''file:b'' [''file:a''] [''file:a''])\<lparr>deps := [''file:a'', ''file:a'']\<rparr>)]
        ''file:a''
     = [Item ((mk_item ''file:b'' [''file:a''] [''file:a''])\<lparr>deps := [''file:a'']\<rparr>)]
   \<and> trace (apply_items one_task_run
              [mk_item ''file:a'' [] [], mk_item ''file:b'' [''file:a''] [''file:a'']] 1 False)
       = [Start ''file:a'', Reap ''file:a'']
   \<and> place (apply_items one_task_run
              [mk_item ''file:a'' [] [], mk_item ''file:b'' [''file:a''] [''file:a'']] 1 False)
       = Finished
   \<and> raised (apply_items one_task_run
              [mk_item ''file:a'' [] [], mk_item ''file:b'' [''file:a''] [''file:a'']] 1 False)
       = Some (ItemDependencyError
                 [DummyItem \<lparr>item_type = ''file'', dummy_deps = [''file:b'']\<rparr>,
                  Item ((mk_item ''file:b'' [''file:a''] [''file:a''])\<lparr>deps := [''file:a'']\<rparr>)])"
  by (simp add: run_defs)

text \<open>
  Claim C2 as stated fails: with an item \<open>file:a\<close> beside the item that names the unknown id
  \<open>ghost:nope\<close> and two workers, the graph is built, \<open>file:a\<close> and the type-group item
  \<open>ghost:\<close> are started and reaped, the result of \<open>file:a\<close> is yielded, and only then the
  run raises, with the error of the check after the main loop.
\<close>

theorem unknown_dependency_counterexample:
  "''ghost:nope'' \<in> set (depends (mk_item ''file:k'' [] [''ghost:nope'']))
   \<and> ''ghost:nope'' \<notin> id_of ` set (inject_dummy_items
         [mk_item ''file:a'' [] [], mk_item ''file:k'' [] [''ghost:nope'']])
   \<and> trace (apply_items two_task_run
              [mk_item ''file:a'' [] [], mk_item ''file:k'' [] [''ghost:nope'']] 2 False)
       = [Start ''file:a'', Start ''ghost:'', Reap ''file:a'', Reap ''ghost:'']
   \<and> yielded (apply_items two_task_run
              [mk_item ''file:a'' [] [], mk_item ''file:k'' [] [''ghost:nope'']] 2 False)
       = [fixed_result]
   \<and> place (apply_items two_task_run
              [mk_item ''file:a'' [] [], mk_item ''file:k'' [] [''ghost:nope'']] 2 False)
       = Finished
   \<and> raised (apply_items two_task_run
              [mk_item ''file:a'' [] [], mk_item ''file:k'' [] [''ghost:nope'']] 2 False)
       = Some (ItemDependencyError
                 [DummyItem \<lparr>item_type = ''file'', dummy_deps = [''file:k'']\<rparr>,
                  Item ((mk_item ''file:k'' [] [''ghost:nope''])\<lparr>deps := [''ghost:nope'']\<rparr>)])"
  by (simp add: run_defs two_task_run_def)

theorem unknown_dependency_raises_at_the_end_witness:
  "mk_item ''file:k'' [] [''ghost:nope''] \<in> set [mk_item ''file:k'' [] [''ghost:nope'']]
   \<and> ''ghost:nope'' \<in> set (DEPENDS_STATIC (mk_item ''file:k'' [] [''ghost:nope''])
                              @ depends (mk_item ''file:k'' [] [''ghost:nope'']))
   \<and> ''ghost:nope'' \<notin> id_of ` set (inject_dummy_items [mk_item ''file:k'' [] [''ghost:nope'']])
   \<and> place (apply_items one_task_run [mk_item ''file:k'' [] [''ghost:nope'']] 1 False) = Finished
   \<and> raised (apply_items one_task_run [mk_item ''file:k'' [] [''ghost:nope'']] 1 False)
       = Some (ItemDependencyError
           (items_with_deps (apply_items one_task_run [mk_item ''file:k'' [] [''ghost:nope'']] 1 False)))
   \<and> (\<exists>g \<in> set (items_with_deps
                   (apply_items one_task_run [mk_item ''file:k'' [] [''ghost:nope'']] 1 False)).
         id_of g = ''file:k'' \<and> ''ghost:nope'' \<in> set (deps_of g))
   \<and> (\<exists>more. place (apply_items ([Run 0] @ more) [mk_item ''file:k'' [] [''ghost:nope'']] 1 False)
         = Finished)"
proof -
  let ?k = "mk_item ''file:k'' [] [''ghost:nope'']"
  have h1: "?k \<in> set [?k]" by simp
  have h2: "''ghost:nope'' \<in> set (DEPENDS_STATIC ?k @ depends ?k)"
    by (simp add: mk_item_def)
  have h3: "''ghost:nope'' \<notin> id_of ` set (inject_dummy_items [?k])"
    by (simp add: run_defs)
  have f: "place (apply_items one_task_run [?k] 1 False) = Finished"
    by (simp add: run_defs)
  have i: "item_id ?k = ''file:k''" by (simp add: mk_item_def)
  have p: "(0::int) < 1" by simp
  from unknown_dependency_raises_at_the_end[OF h1 h2 h3, of one_task_run 1 False] f i
    unknown_dependency_raises_at_the_end[OF h1 h2 h3, of "[Run 0]" 1 False] p h1 h2 h3
  show ?thesis by simp
qed

theorem loop_exit_with_pending_items_witness:
  "place (apply_items [Run 0] [mk_item ''file:x'' [] [''file:y''], mk_item ''file:y'' [] [''file:x'']] 2 False)
     = Finished
   \<and> items_with_deps (apply_items [Run 0]
        [mk_item ''file:x'' [] [''file:y''], mk_item ''file:y'' [] [''file:x'']] 2 False)
     = [DummyItem \<lparr>item_type = ''file'', dummy_deps = [''file:x'', ''file:y'']\<rparr>,
        Item ((mk_item ''file:x'' [] [''file:y''])\<lparr>deps := [''file:y'']\<rparr>),
        Item ((mk_item ''file:y'' [] [''file:x''])\<lparr>deps := [''file:x'']\<rparr>)]
   \<and> raised (apply_items [Run 0]
        [mk_item ''file:x'' [] [''file:y''], mk_item ''file:y'' [] [''file:x'']] 2 False)
     = Some (ItemDependencyError
       [DummyItem \<lparr>item_type = ''file'', dummy_deps = [''file:x'', ''file:y'']\<rparr>,
        Item ((mk_item ''file:x'' [] [''file:y''])\<lparr>deps := [''file:y'']\<rparr>),
        Item ((mk_item ''file:y'' [] [''file:x''])\<lparr>deps := [''file:x'']\<rparr>)])"
proof -
  let ?items = "[mk_item ''file:x'' [] [''file:y''], mk_item ''file:y'' [] [''file:x'']]"
  have f: "place (apply_items [Run 0] ?items 2 False) = Finished"
    by (simp add: run_defs)
  have w: "items_with_deps (apply_items [Run 0] ?items 2 False)
     = [DummyItem \<lparr>item_type = ''file'', dummy_deps = [''file:x'', ''file:y'']\<rparr>,
        Item ((mk_item ''file:x'' [] [''file:y''])\<lparr>deps := [''file:y'']\<rparr>),
        Item ((mk_item ''file:y'' [] [''file:x''])\<lparr>deps := [''file:x'']\<rparr>)]"
    by (simp add: run_defs)
  from loop_exit_with_pending_items[of "apply_items [] ?items 2 False" 0 "[Run 0]" ?items 2 False] f w
  show ?thesis by simp
qed


section \<open>Properties of the Metastack\<close>

lemma merge_dict_data:
  "merge_dict (MDict [(''data'', r)]) (MDict [(''data'', v)]) = MDict [(''data'', merge_dict r v)]"
  by simp

lemma map_filter_map_snd:
  "List.map_filter f (map snd xs) = List.map_filter (\<lambda>x. f (snd x)) xs"
  by (induction xs) (simp_all add: map_filter_simps split: option.splits)

lemma get_loop_defined:
  "get_loop ls p (MDict [(''data'', r)], False)
     = (MDict [(''data'', foldl merge_dict r (List.map_filter (\<lambda>l. value_at_key_path l p) ls))], False)"
proof (induction ls arbitrary: r)
  case Nil
  then show ?case by (simp add: map_filter_simps)
next
  case (Cons l ls)
  show ?case
  proof (cases "value_at_key_path l p")
    case None
    then show ?thesis using Cons[of r] by (simp add: map_filter_simps)
  next
    case (Some v)
    then show ?thesis using Cons[of "merge_dict r v"]
      by (simp add: map_filter_simps del: merge_dict.simps add: merge_dict_data)
  qed
qed

lemma get_loop_undef:
  "get_loop ls p (MNone, True)
     = (case List.map_filter (\<lambda>l. value_at_key_path l p) ls of
          [] \<Rightarrow> (MNone, True)
        | v # vs \<Rightarrow> (MDict [(''data'', foldl merge_dict v vs)], False))"
proof (induction ls)
  case Nil
  then show ?case by (simp add: map_filter_simps)
next
  case (Cons l ls)
  show ?case
  proof (cases "value_at_key_path l p")
    case None
    then show ?thesis using Cons by (simp add: map_filter_simps)
  next
    case (Some v)
    then show ?thesis using get_loop_defined[of ls p v] by (simp add: map_filter_simps)
  qed
qed

lemma Metastack_get_values_at:
  "Metastack_get layers path dflt use_default =
     (case values_at layers (path_keys path) of
        [] \<Rightarrow> if use_default then Inr (Default dflt)
              else Inl (MetastackKeyError (path_keys path))
      | v # vs \<Rightarrow> Inr (Merged (freeze_object (foldl merge_dict v vs))))"
proof -
  have eq: "List.map_filter (\<lambda>l. value_at_key_path l (path_keys path)) (map snd layers)
      = values_at layers (path_keys path)"
    by (simp add: values_at_def map_filter_map_snd)
  have "get_loop (map snd layers) (path_keys path) (MNone, True)
     = (case values_at layers (path_keys path) of
          [] \<Rightarrow> (MNone, True)
        | v # vs \<Rightarrow> (MDict [(''data'', foldl merge_dict v vs)], False))"
    using get_loop_undef[of "map snd layers" "path_keys path"] by (simp only: eq)
  then show ?thesis
    by (simp add: Metastack_get_def Let_def subscript_def split: list.splits)
qed

text \<open>
  Claim C3. \<open>Metastack.get\<close> walks the layers in insertion order and skips those without
  the path. If some layer has the path, it returns the frozen merge of the values found,
  merged in order with the earlier value as base and the later one as overlay. If none
  has it, it returns the default when \<open>use_default\<close> is true and raises \<open>MetastackKeyError\<close>
  otherwise. \<open>Metastack.has\<close> says whether some layer has the path. On an empty Metastack
  \<open>get\<close> returns the default and \<open>has\<close> returns false.
\<close>

theorem Metastack_get_merges_in_order:
  "Metastack_get layers path dflt use_default =
     (case values_at layers (path_keys path) of
        [] \<Rightarrow> if use_default then Inr (Default dflt)
              else Inl (MetastackKeyError (path_keys path))
      | v # vs \<Rightarrow> Inr (Merged (freeze_object (foldl merge_dict v vs))))
   \<and> Metastack_has layers path = Inr (values_at layers (path_keys path) \<noteq> [])
   \<and> Metastack_get [] path dflt True = Inr (Default dflt)
   \<and> Metastack_has [] path = Inr False"
proof -
  have h: "Metastack_has ls path = Inr (values_at ls (path_keys path) \<noteq> [])" for ls
    unfolding Metastack_has_def Metastack_get_values_at
    by (cases "values_at ls (path_keys path)") simp_all
  have e: "values_at [] (path_keys path) = []"
    by (simp add: values_at_def map_filter_simps)
  show ?thesis
    using Metastack_get_values_at[of layers path dflt use_default]
      Metastack_get_values_at[of "[]" path dflt True] h[of layers] h[of "[]"] e
    by simp
qed

theorem Metastack_get_merges_in_order_witness:
  "values_at [(''base'', MDict [(''a'', MDict [(''x'', MInt 1), (''y'', MInt 2)])]),
              (''over'', MDict [(''a'', MDict [(''y'', MInt 9)])])] (path_keys (PathStr ''a''))
     = [MDict [(''x'', MInt 1), (''y'', MInt 2)], MDict [(''y'', MInt 9)]]
   \<and> Metastack_get [(''base'', MDict [(''a'', MDict [(''x'', MInt 1), (''y'', MInt 2)])]),
              (''over'', MDict [(''a'', MDict [(''y'', MInt 9)])])] (PathStr ''a'') MNone True
     = Inr (Merged (FDict [(''x'', FInt 1), (''y'', FInt 9)]))
   \<and> Metastack_get [(''base'', MDict [(''a'', MDict [(''x'', MInt 1), (''y'', MInt 2)])]),
              (''over'', MDict [(''a'', MDict [(''y'', MInt 9)])])] (PathStr ''a/y'') MNone True
     = Inr (Merged (FInt 9))
   \<and> Metastack_get [(''base'', MDict [(''a'', MDict [(''x'', MInt 1), (''y'', MInt 2)])]),
              (''over'', MDict [(''a'', MDict [(''y'', MInt 9)])])] (PathStr ''a/z'') (MInt 42) True
     = Inr (Default (MInt 42))
   \<and> Metastack_has [(''base'', MDict [(''a'', MDict [(''x'', MInt 1), (''y'', MInt 2)])]),
              (''over'', MDict [(''a'', MDict [(''y'', MInt 9)])])] (PathStr ''a/x'') = Inr True
   \<and> Metastack_has [(''base'', MDict [(''a'', MDict [(''x'', MInt 1), (''y'', MInt 2)])]),
              (''over'', MDict [(''a'', MDict [(''y'', MInt 9)])])] (PathList [''b'']) = Inr False"
proof -
  let ?ms = "[(''base'', MDict [(''a'', MDict [(''x'', MInt 1), (''y'', MInt 2)])]),
              (''over'', MDict [(''a'', MDict [(''y'', MInt 9)])])]"
  have v: "values_at ?ms (path_keys (PathStr ''a''))
       = [MDict [(''x'', MInt 1), (''y'', MInt 2)], MDict [(''y'', MInt 9)]]"
    "values_at ?ms (path_keys (PathStr ''a/y'')) = [MInt 2, MInt 9]"
    "values_at ?ms (path_keys (PathStr ''a/z'')) = []"
    "values_at ?ms (path_keys (PathStr ''a/x'')) = [MInt 1]"
    "values_at ?ms (path_keys (PathList [''b''])) = []"
    by (simp_all add: values_at_def path_keys_def map_filter_simps)
  show ?thesis
    using v
      Metastack_get_merges_in_order[of ?ms "PathStr ''a''" MNone True]
      Metastack_get_merges_in_order[of ?ms "PathStr ''a/y''" MNone True]
      Metastack_get_merges_in_order[of ?ms "PathStr ''a/z''" "MInt 42" True]
      Metastack_get_merges_in_order[of ?ms "PathStr ''a/x''" MNone True]
      Metastack_get_merges_in_order[of ?ms "PathList [''b'']" MNone True]
    by simp
qed

lemma py_eq_list_refl: "(\<forall>x \<in> set xs. py_eq x x) \<Longrightarrow> py_eq_list xs xs"
  by (induction xs) simp_all

lemma py_eq_items_iff:
  "py_eq_items a b \<longleftrightarrow>
     (\<forall>kv \<in> set a. \<exists>v'. map_of b (fst kv) = Some v' \<and> py_eq (snd kv) v')"
  by (induction a) (auto split: option.splits)

lemma py_eq_refl: "wf_mval v \<Longrightarrow> py_eq v v"
proof (induction v)
  case (MList xs)
  then show ?case by (simp add: py_eq_list_refl)
next
  case (MDict kvs)
  have "\<exists>v'. map_of kvs (fst kv) = Some v' \<and> py_eq (snd kv) v'" if "kv \<in> set kvs" for kv
  proof -
    from that MDict.prems have "map_of kvs (fst kv) = Some (snd kv)" by simp
    moreover from that MDict.prems have "wf_mval (snd kv)" by simp
    with MDict.IH[of kv "snd kv"] that have "py_eq (snd kv) (snd kv)"
      by (cases kv) auto
    ultimately show ?thesis by blast
  qed
  then show ?case by (simp add: py_eq_items_iff)
qed simp_all

lemma py_eq_empty_dict: "py_eq (MDict []) (MDict b) \<longleftrightarrow> b = []"
  by simp

lemma length_eq_of_same_keys:
  assumes "distinct (map fst a)" "distinct (map fst b)" "fst ` set a = fst ` set b"
  shows "length a = length b"
proof -
  have "length a = card (fst ` set a)" using distinct_card[OF assms(1)] by simp
  also have "\<dots> = card (fst ` set b)" using assms(3) by simp
  also have "\<dots> = length b" using distinct_card[OF assms(2)] by simp
  finally show ?thesis .
qed

lemma py_eq_dict_iff:
  assumes "distinct (map fst a)" "distinct (map fst b)"
  shows "py_eq (MDict a) (MDict b) \<longleftrightarrow> (\<forall>k. rel_option py_eq (map_of a k) (map_of b k))"
proof
  assume "py_eq (MDict a) (MDict b)"
  then have len: "length a = length b"
    and items: "\<forall>kv \<in> set a. \<exists>v'. map_of b (fst kv) = Some v' \<and> py_eq (snd kv) v'"
    by (simp_all add: py_eq_items_iff)
  from items have sub: "set (map fst a) \<subseteq> set (map fst b)"
    by (auto dest!: map_of_SomeD bspec) (metis fst_conv image_eqI)
  have "card (set (map fst a)) = card (set (map fst b))"
    using distinct_card[OF assms(1)] distinct_card[OF assms(2)] len by simp
  with sub have keys: "set (map fst a) = set (map fst b)"
    by (simp add: card_subset_eq)
  show "\<forall>k. rel_option py_eq (map_of a k) (map_of b k)"
  proof
    fix k
    show "rel_option py_eq (map_of a k) (map_of b k)"
    proof (cases "map_of a k")
      case None
      then have "k \<notin> set (map fst a)" by (simp add: map_of_eq_None_iff)
      with keys have "map_of b k = None" by (simp add: map_of_eq_None_iff)
      with None show ?thesis by simp
    next
      case (Some v)
      then have "(k, v) \<in> set a" by (rule map_of_SomeD)
      with items obtain v' where "map_of b k = Some v'" "py_eq v v'" by fastforce
      with Some show ?thesis by simp
    qed
  qed
next
  assume r: "\<forall>k. rel_option py_eq (map_of a k) (map_of b k)"
  have "k \<in> fst ` set a \<longleftrightarrow> k \<in> fst ` set b" for k
  proof -
    from r[rule_format, of k] have "map_of a k = None \<longleftrightarrow> map_of b k = None"
      by (cases "map_of a k"; cases "map_of b k") simp_all
    then show ?thesis by (simp add: map_of_eq_None_iff)
  qed
  then have "fst ` set a = fst ` set b" by blast
  then have "length a = length b"
    using assms by (intro length_eq_of_same_keys)
  moreover have "\<exists>v'. map_of b (fst kv) = Some v' \<and> py_eq (snd kv) v'" if "kv \<in> set a" for kv
  proof -
    from that assms(1) have "map_of a (fst kv) = Some (snd kv)" by simp
    with r[rule_format, of "fst kv"] show ?thesis
      by (cases "map_of b (fst kv)") auto
  qed
  ultimately show "py_eq (MDict a) (MDict b)" by (simp add: py_eq_items_iff)
qed

text \<open>
  Claim C7, as amended. For a layer that passes validation, \<open>_set_layer\<close> stores the layer
  and returns \<open>changed\<close>, which is true exactly when the layer is unequal, by Python's \<open>!=\<close>, to
  the layer stored under the identifier, an identifier without a layer counting as the
  empty dict. So with no layer stored \<open>changed\<close> is true exactly when the new layer is not
  empty; with a dict stored it is true exactly when some key is in one of the two dicts
  only or has unequal values in them; and a second call with the same identifier and
  layer returns false and leaves the layers as they are.
\<close>

theorem set_layer_changed:
  assumes "wf_mval (MDict new)"
  shows "\<exists>changed.
           set_layer layers identifier (MDict new)
             = Inr (changed, AList.update identifier (MDict new) layers)
           \<and> (changed \<longleftrightarrow>
                \<not> py_eq (case map_of layers identifier of None \<Rightarrow> MDict [] | Some l \<Rightarrow> l)
                        (MDict new))
           \<and> (map_of layers identifier = None \<longrightarrow> (changed \<longleftrightarrow> new \<noteq> []))
           \<and> (\<forall>old. map_of layers identifier = Some (MDict old) \<and> distinct (map fst old) \<longrightarrow>
                 (changed \<longleftrightarrow> \<not> (\<forall>k. rel_option py_eq (map_of old k) (map_of new k))))
           \<and> set_layer (AList.update identifier (MDict new) layers) identifier (MDict new)
               = Inr (False, AList.update identifier (MDict new) layers)"
proof -
  let ?old = "case map_of layers identifier of None \<Rightarrow> MDict [] | Some l \<Rightarrow> l"
  let ?changed = "\<not> py_eq ?old (MDict new)"
  let ?layers' = "AList.update identifier (MDict new) layers"
  from assms have dn: "distinct (map fst new)" by simp
  have 1: "set_layer layers identifier (MDict new) = Inr (?changed, ?layers')"
    by (simp add: set_layer_def validate_metadata_def)
  have 2: "map_of layers identifier = None \<longrightarrow> (?changed \<longleftrightarrow> new \<noteq> [])"
    by auto
  have 3: "\<forall>old. map_of layers identifier = Some (MDict old) \<and> distinct (map fst old) \<longrightarrow>
      (?changed \<longleftrightarrow> \<not> (\<forall>k. rel_option py_eq (map_of old k) (map_of new k)))"
    using py_eq_dict_iff[OF _ dn] by auto
  have "map_of ?layers' identifier = Some (MDict new)"
    by (simp add: update_conv')
  moreover have "AList.update identifier (MDict new) ?layers' = ?layers'"
    by simp
  ultimately have 4: "set_layer ?layers' identifier (MDict new) = Inr (False, ?layers')"
    using py_eq_refl[OF assms]
    by (simp add: set_layer_def validate_metadata_def del: py_eq.simps)
  show ?thesis
  proof (intro exI[of _ ?changed] conjI)
    show "set_layer layers identifier (MDict new) = Inr (?changed, ?layers')" by (rule 1)
    show "?changed \<longleftrightarrow> \<not> py_eq ?old (MDict new)" by (rule refl)
    show "map_of layers identifier = None \<longrightarrow> (?changed \<longleftrightarrow> new \<noteq> [])" by (rule 2)
    show "\<forall>old. map_of layers identifier = Some (MDict old) \<and> distinct (map fst old) \<longrightarrow>
      (?changed \<longleftrightarrow> \<not> (\<forall>k. rel_option py_eq (map_of old k) (map_of new k)))" by (rule 3)
    show "set_layer ?layers' identifier (MDict new) = Inr (False, ?layers')" by (rule 4)
  qed
qed


theorem set_layer_changed_witness:
  "wf_mval (MDict [(''b'', MInt 2), (''a'', MBool True)])
   \<and> set_layer [(''r1'', MDict [(''a'', MInt 1), (''b'', MInt 2)]), (''r2'', MDict [])] ''r1''
         (MDict [(''b'', MInt 2), (''a'', MBool True)])
       = Inr (False, [(''r1'', MDict [(''b'', MInt 2), (''a'', MBool True)]), (''r2'', MDict [])])
   \<and> set_layer [(''r1'', MDict [(''a'', MInt 1), (''b'', MInt 2)]), (''r2'', MDict [])] ''r3''
         (MDict [(''b'', MInt 2), (''a'', MBool True)])
       = Inr (True, [(''r1'', MDict [(''a'', MInt 1), (''b'', MInt 2)]), (''r2'', MDict []),
                      (''r3'', MDict [(''b'', MInt 2), (''a'', MBool True)])])
   \<and> set_layer [(''r1'', MDict [(''a'', MInt 1), (''b'', MInt 2)]), (''r2'', MDict []),
                      (''r3'', MDict [(''b'', MInt 2), (''a'', MBool True)])] ''r3''
         (MDict [(''b'', MInt 2), (''a'', MBool True)])
       = Inr (False, [(''r1'', MDict [(''a'', MInt 1), (''b'', MInt 2)]), (''r2'', MDict []),
                      (''r3'', MDict [(''b'', MInt 2), (''a'', MBool True)])])"
proof -
  let ?ms = "[(''r1'', MDict [(''a'', MInt 1), (''b'', MInt 2)]), (''r2'', MDict [])]"
  let ?new = "[(''b'', MInt 2), (''a'', MBool True)]"
  have h2: "wf_mval (MDict ?new)" by simp
  have u: "AList.update ''r3'' (MDict ?new) ?ms = ?ms @ [(''r3'', MDict ?new)]"
    "AList.update ''r1'' (MDict ?new) ?ms = [(''r1'', MDict ?new), (''r2'', MDict [])]"
    by simp_all
  have m: "map_of ?ms ''r3'' = None" by simp
  from set_layer_changed[OF h2, of ?ms "''r3''"] m u
  have a: "set_layer ?ms ''r3'' (MDict ?new) = Inr (True, ?ms @ [(''r3'', MDict ?new)])"
    and b: "set_layer (?ms @ [(''r3'', MDict ?new)]) ''r3'' (MDict ?new)
       = Inr (False, ?ms @ [(''r3'', MDict ?new)])"
    by auto
  have c: "set_layer ?ms ''r1'' (MDict ?new) = Inr (False, [(''r1'', MDict ?new), (''r2'', MDict [])])"
    by (simp add: set_layer_def validate_metadata_def)
  from h2 a b c show ?thesis by simp
qed

text \<open>
  Claim C7 as stated fails: on an identifier without a layer, an empty layer gives
  \<open>changed = False\<close>. Python's comparison also takes \<open>True\<close> for \<open>1\<close>: a layer that differs
  from the stored one only in that gives \<open>changed = False\<close> as well.
\<close>

theorem set_layer_counterexample:
  "map_of ([] :: metastack) ''r1'' = None
   \<and> set_layer [] ''r1'' (MDict []) = Inr (False, [(''r1'', MDict [])])
   \<and> map_of [(''r1'', MDict [(''a'', MBool True)])] ''r1'' = Some (MDict [(''a'', MBool True)])
   \<and> MDict [(''a'', MBool True)] \<noteq> MDict [(''a'', MInt 1)]
   \<and> set_layer [(''r1'', MDict [(''a'', MBool True)])] ''r1'' (MDict [(''a'', MInt 1)])
       = Inr (False, [(''r1'', MDict [(''a'', MInt 1)])])"
  by (simp add: set_layer_def validate_metadata_def)

end
